theory Spec2Isabelle
  imports Main "HOL-Library.Word" "HOL-Library.Signed_Division"
begin

section \<open>Numeric domain (types.hpp, types.cpp)\<close>

text \<open>
  \<^verbatim>\<open>Price\<close> and \<^verbatim>\<open>Quantity\<close> wrap an \<^verbatim>\<open>int64_t\<close> raw value.  The formatter is
  modelled on the machine representation, a 64-bit word read in two's complement, because
  its sentinel tests compare against the boundary values of \<^verbatim>\<open>int64_t\<close>.
  \<^verbatim>\<open>std::numeric_limits<int64_t>::lowest()\<close> and \<^verbatim>\<open>std::numeric_limits<int64_t>::min()\<close>
  are the same number for an integer type, so \<^verbatim>\<open>INVALID\<close> and \<^verbatim>\<open>MIN_VALUE\<close>
  are defined from one constant, as in the header.
\<close>

type_synonym int64 = "64 word"

definition INT64_LOWEST :: int64 where
  "INT64_LOWEST = word_of_int (- (2 ^ 63))"

definition INT64_MIN :: int64 where
  "INT64_MIN = word_of_int (- (2 ^ 63))"

definition INT64_MAX :: int64 where
  "INT64_MAX = word_of_int (2 ^ 63 - 1)"

definition SCALE_FACTOR :: int64 where
  "SCALE_FACTOR = 10000"

definition Price_INVALID :: int64 where
  "Price_INVALID = INT64_LOWEST"

definition Price_MAX_VALUE :: int64 where
  "Price_MAX_VALUE = INT64_MAX"

definition Price_MIN_VALUE :: int64 where
  "Price_MIN_VALUE = INT64_MIN"

definition Quantity_INVALID :: int64 where
  "Quantity_INVALID = INT64_LOWEST"

definition Quantity_MAX_VALUE :: int64 where
  "Quantity_MAX_VALUE = INT64_MAX"

definition Quantity_MIN_VALUE :: int64 where
  "Quantity_MIN_VALUE = INT64_MIN"

text \<open>C++ \<^verbatim>\<open>/\<close> and \<^verbatim>\<open>%\<close> on \<^verbatim>\<open>int64_t\<close>: the quotient is truncated towards zero.\<close>

definition int64_div :: "int64 \<Rightarrow> int64 \<Rightarrow> int64" where
  "int64_div a b = word_of_int (sint a sdiv sint b)"

definition int64_mod :: "int64 \<Rightarrow> int64 \<Rightarrow> int64" where
  "int64_mod a b = word_of_int (sint a smod sint b)"

text \<open>
  The stream operations used by \<^verbatim>\<open>to_string\<close>: \<^verbatim>\<open>ss << n\<close> for an \<^verbatim>\<open>int64_t\<close>
  writes the decimal digits, after a minus sign when \<open>n\<close> is negative;
  \<^verbatim>\<open>std::setw(w) << std::setfill(c)\<close> pads the next item on the left up to width \<open>w\<close>.
\<close>

definition digit_char :: "nat \<Rightarrow> char" where
  "digit_char d = (''0123456789'') ! d"

fun dec_digits :: "nat \<Rightarrow> string" where
  "dec_digits n =
     (if n < 10 then [digit_char n] else dec_digits (n div 10) @ [digit_char (n mod 10)])"

declare dec_digits.simps [simp del]

definition put_int64 :: "int64 \<Rightarrow> string" where
  "put_int64 v =
     (if sint v < 0 then CHR ''-'' # dec_digits (nat (- sint v)) else dec_digits (nat (sint v)))"

definition put_setw :: "nat \<Rightarrow> char \<Rightarrow> string \<Rightarrow> string" where
  "put_setw w c s = replicate (w - length s) c @ s"

definition Price_to_string :: "int64 \<Rightarrow> string" where
  "Price_to_string value =
    (if value = Price_INVALID then ''INVALID''
     else if value = Price_MAX_VALUE then ''MAX''
     else if value = Price_MIN_VALUE then ''MIN''
     else
       let negative = (sint value < 0);
           abs_value = (if negative then - value else value);
           int_part = int64_div abs_value SCALE_FACTOR;
           frac_part = int64_mod abs_value SCALE_FACTOR
       in (if negative then ''-'' else '''') @ put_int64 int_part @ ''.''
            @ put_setw 4 CHR ''0'' (put_int64 frac_part))"

definition Quantity_to_string :: "int64 \<Rightarrow> string" where
  "Quantity_to_string value =
    (if value = Quantity_INVALID then ''INVALID''
     else if value = Quantity_MAX_VALUE then ''MAX''
     else if value = Quantity_MIN_VALUE then ''MIN''
     else
       let negative = (sint value < 0);
           abs_value = (if negative then - value else value);
           int_part = int64_div abs_value SCALE_FACTOR;
           frac_part = int64_mod abs_value SCALE_FACTOR
       in (if negative then ''-'' else '''') @ put_int64 int_part @ ''.''
            @ put_setw 4 CHR ''0'' (put_int64 frac_part))"

text \<open>
  The format in the words of the specification, on the mathematical value: the sign when
  \<open>v\<close> is negative, \<open>|v| / 10000\<close>, a dot, \<open>|v| % 10000\<close> padded with zeros to four digits.
\<close>

definition spec_fixed_format :: "int \<Rightarrow> string" where
  "spec_fixed_format v =
     (if v < 0 then ''-'' else '''') @ dec_digits (nat (\<bar>v\<bar> div 10000)) @ ''.''
       @ replicate (4 - length (dec_digits (nat (\<bar>v\<bar> mod 10000)))) CHR ''0''
       @ dec_digits (nat (\<bar>v\<bar> mod 10000))"


section \<open>Orders (order.hpp, order.cpp)\<close>

text \<open>
  In the matching engine the raw values of prices and quantities are modelled as
  mathematical integers: signed overflow is undefined behaviour in C++ and the
  specification declares it out of domain.  Order ids are only compared, never computed
  with.  Time stamps come from the clock, an external collaborator, and are left out.
\<close>

type_synonym OrderId = nat
type_synonym Price = int
type_synonym Quantity = int

definition INVALID_ORDER_ID :: OrderId where
  "INVALID_ORDER_ID = 0"

datatype Side = BUY | SELL

datatype OrderType = LIMIT | MARKET | CANCEL | MODIFY

datatype TimeInForce = GTC | IOC | FOK

datatype OrderStatus =
  NEW | ACCEPTED | REJECTED | FILLED | PARTIALLY_FILLED | CANCELLED | REPLACED

record Order =
  order_id :: OrderId
  symbol :: string
  side :: Side
  order_type :: OrderType
  quantity :: Quantity
  executed_quantity :: Quantity
  price :: Price
  time_in_force :: TimeInForce
  status :: OrderStatus

text \<open>The constructor \<^verbatim>\<open>Order(id, symbol, side, type, quantity, price, tif)\<close>.\<close>

definition new_Order ::
  "OrderId \<Rightarrow> string \<Rightarrow> Side \<Rightarrow> OrderType \<Rightarrow> Quantity \<Rightarrow> Price \<Rightarrow> TimeInForce \<Rightarrow> Order" where
  "new_Order i smb sd ty qty pr tif =
     \<lparr> order_id = i, symbol = smb, side = sd, order_type = ty, quantity = qty,
       executed_quantity = 0, price = pr, time_in_force = tif, status = NEW \<rparr>"

definition remaining_quantity :: "Order \<Rightarrow> Quantity" where
  "remaining_quantity ord = quantity ord - executed_quantity ord"

definition is_active :: "Order \<Rightarrow> bool" where
  "is_active ord \<longleftrightarrow>
     status ord = NEW \<or> status ord = ACCEPTED \<or> status ord = PARTIALLY_FILLED"

definition is_filled :: "Order \<Rightarrow> bool" where
  "is_filled ord \<longleftrightarrow> executed_quantity ord = quantity ord \<or> status ord = FILLED"

definition is_valid :: "Order \<Rightarrow> bool" where
  "is_valid ord \<longleftrightarrow> order_id ord \<noteq> INVALID_ORDER_ID"

definition set_status :: "OrderStatus \<Rightarrow> Order \<Rightarrow> Order" where
  "set_status st ord = ord\<lparr>status := st\<rparr>"

definition set_quantity :: "Quantity \<Rightarrow> Order \<Rightarrow> Order" where
  "set_quantity q ord = ord\<lparr>quantity := q\<rparr>"

definition execute :: "Order \<Rightarrow> Quantity \<Rightarrow> Order" where
  "execute ord exec_qty =
     (let exec_qty1 = (if exec_qty > remaining_quantity ord then remaining_quantity ord
                       else exec_qty);
          ord1 = ord\<lparr>executed_quantity := executed_quantity ord + exec_qty1\<rparr>
      in if executed_quantity ord1 = quantity ord1 then ord1\<lparr>status := FILLED\<rparr>
         else if executed_quantity ord1 > 0 then ord1\<lparr>status := PARTIALLY_FILLED\<rparr>
         else ord1)"

definition cancel :: "Order \<Rightarrow> Order" where
  "cancel ord = (if is_active ord then ord\<lparr>status := CANCELLED\<rparr> else ord)"

section \<open>Price levels (price\_level.hpp, price\_level.cpp)\<close>

text \<open>
  Orders are shared objects (\<^verbatim>\<open>std::shared_ptr<Order>\<close>): the book's id index, the
  price levels and the caller all see one object.  The model keeps the objects in a heap
  and writes an \<^verbatim>\<open>OrderPtr\<close> as the address of its object; a null pointer is not an
  address, so the null tests of the source have no branch here.

  A price level holds the list \<^verbatim>\<open>orders_\<close> (front first) and the table
  \<^verbatim>\<open>order_map_\<close> from ids to list iterators.  An iterator is written as the address
  held by its node.  The iterator kept for an id is the one of the latest
  \<^verbatim>\<open>push_back\<close> for that id, so the node it denotes is the last one in the list that
  holds that address: \<open>erase_node\<close> removes the last occurrence.
\<close>

type_synonym addr = nat
type_synonym heap = "addr \<Rightarrow> Order"

record PriceLevel =
  level_price :: Price
  total_quantity :: Quantity
  level_orders :: "addr list"
  order_map :: "OrderId \<rightharpoonup> addr"

definition new_PriceLevel :: "Price \<Rightarrow> PriceLevel" where
  "new_PriceLevel p =
     \<lparr> level_price = p, total_quantity = 0, level_orders = [], order_map = Map.empty \<rparr>"

definition erase_node :: "addr \<Rightarrow> addr list \<Rightarrow> addr list" where
  "erase_node a xs = rev (remove1 a (rev xs))"

definition level_is_empty :: "PriceLevel \<Rightarrow> bool" where
  "level_is_empty lv \<longleftrightarrow> level_orders lv = []"

definition level_add_order :: "heap \<Rightarrow> addr \<Rightarrow> PriceLevel \<Rightarrow> PriceLevel" where
  "level_add_order h a lv =
     (if price (h a) \<noteq> level_price lv then lv
      else lv\<lparr> level_orders := level_orders lv @ [a],
                order_map := (order_map lv)(order_id (h a) \<mapsto> a),
                total_quantity := total_quantity lv + remaining_quantity (h a) \<rparr>)"

definition remove_order :: "heap \<Rightarrow> OrderId \<Rightarrow> PriceLevel \<Rightarrow> bool \<times> PriceLevel" where
  "remove_order h i lv =
     (case order_map lv i of
        None \<Rightarrow> (False, lv)
      | Some a \<Rightarrow>
          (True, lv\<lparr> total_quantity := total_quantity lv - remaining_quantity (h a),
                     level_orders := erase_node a (level_orders lv),
                     order_map := (order_map lv)(i := None) \<rparr>))"

definition modify_order_quantity ::
  "heap \<Rightarrow> OrderId \<Rightarrow> Quantity \<Rightarrow> PriceLevel \<Rightarrow> bool \<times> heap \<times> PriceLevel" where
  "modify_order_quantity h i new_quantity lv =
     (case order_map lv i of
        None \<Rightarrow> (False, h, lv)
      | Some a \<Rightarrow>
          let old_remaining = remaining_quantity (h a) in
          if new_quantity < executed_quantity (h a) then (False, h, lv)
          else
            let h1 = h(a := set_quantity new_quantity (h a));
                new_remaining = remaining_quantity (h1 a)
            in (True, h1,
                lv\<lparr>total_quantity := total_quantity lv - old_remaining + new_remaining\<rparr>))"

text \<open>
  \<^verbatim>\<open>PriceLevel::execute_quantity\<close>.  The guard before the loop repeats the loop
  condition; \<open>pop_front\<close> is \<^verbatim>\<open>order_map_.erase(order->id()); orders_.pop_front()\<close>.  One pass of the loop either executes a positive quantity, or pops a filled
  head, or changes nothing at all: that happens when the head has nothing left to execute
  and is not filled, and then the C++ loop spins forever on the same state.  The model
  returns \<open>None\<close> for that case, so \<open>None\<close> means that the call does not return.
\<close>

definition pop_front :: "OrderId \<Rightarrow> addr list \<Rightarrow> PriceLevel \<Rightarrow> PriceLevel" where
  "pop_front i rest lv = lv\<lparr> order_map := (order_map lv)(i := None), level_orders := rest \<rparr>"

function execute_quantity ::
  "heap \<Rightarrow> PriceLevel \<Rightarrow> Quantity \<Rightarrow> (heap \<times> PriceLevel \<times> (addr \<times> Quantity) list) option" where
  "execute_quantity h lv remaining_qty =
     (case level_orders lv of
        [] \<Rightarrow> Some (h, lv, [])
      | a # rest \<Rightarrow>
          if \<not> remaining_qty > 0 then Some (h, lv, [])
          else
            let order_remaining = remaining_quantity (h a);
                exec_qty = (if remaining_qty < order_remaining then remaining_qty
                            else order_remaining)
            in if exec_qty > 0 then
                 let h1 = h(a := execute (h a) exec_qty);
                     lv1 = lv\<lparr>total_quantity := total_quantity lv - exec_qty\<rparr>;
                     lv2 = (if is_filled (h1 a) then pop_front (order_id (h1 a)) rest lv1
                            else lv1)
                 in map_option (\<lambda>(h2, lv3, executed). (h2, lv3, (a, exec_qty) # executed))
                      (execute_quantity h1 lv2 (remaining_qty - exec_qty))
               else if is_filled (h a) then
                 execute_quantity h (pop_front (order_id (h a)) rest lv) remaining_qty
               else None)"
  by pat_completeness auto
termination
  by (relation "measures [\<lambda>(h, lv, q). nat q, \<lambda>(h, lv, q). length (level_orders lv)]")
    (auto simp: pop_front_def split: if_splits)

declare execute_quantity.simps [simp del]


section \<open>The order book (order\_book.hpp, order\_book.cpp)\<close>

record OrderMatch =
  maker_order_id :: OrderId
  taker_order_id :: OrderId
  match_price :: Price
  match_quantity :: Quantity

text \<open>
  A \<^verbatim>\<open>std::map\<close> from prices to levels is the list of its entries in iteration order,
  so \<^verbatim>\<open>begin()\<close> is the head: bids are kept with the highest price first
  (\<^verbatim>\<open>std::greater\<close>), asks with the lowest first.  \<open>levels_insert\<close> is
  \<^verbatim>\<open>m[p] = lv\<close>, \<open>levels_erase\<close> is \<^verbatim>\<open>m.erase(p)\<close>.  The entries hold their levels by
  value; where the source changes a level through the pointer it found under a key,
  \<open>levels_update\<close> changes the level stored under that key.
\<close>

type_synonym levels = "(Price \<times> PriceLevel) list"

record OrderBook =
  book_symbol :: string
  bid_levels :: levels
  ask_levels :: levels
  orders :: "OrderId \<rightharpoonup> addr"
  total_bid_quantity :: Quantity
  total_ask_quantity :: Quantity

definition new_OrderBook :: "string \<Rightarrow> OrderBook" where
  "new_OrderBook smb =
     \<lparr> book_symbol = smb, bid_levels = [], ask_levels = [], orders = Map.empty,
       total_bid_quantity = 0, total_ask_quantity = 0 \<rparr>"

text \<open>The key order of the two maps: \<open>comes_first sd p q\<close> when \<open>p\<close> is iterated before \<open>q\<close>.\<close>

definition comes_first :: "Side \<Rightarrow> Price \<Rightarrow> Price \<Rightarrow> bool" where
  "comes_first sd p q = (case sd of BUY \<Rightarrow> p > q | SELL \<Rightarrow> p < q)"

fun levels_insert :: "Side \<Rightarrow> Price \<Rightarrow> PriceLevel \<Rightarrow> levels \<Rightarrow> levels" where
  "levels_insert sd p lv [] = [(p, lv)]"
| "levels_insert sd p lv ((q, lw) # rest) =
     (if p = q then (p, lv) # rest
      else if comes_first sd p q then (p, lv) # (q, lw) # rest
      else (q, lw) # levels_insert sd p lv rest)"

definition levels_update :: "Price \<Rightarrow> (PriceLevel \<Rightarrow> PriceLevel) \<Rightarrow> levels \<Rightarrow> levels" where
  "levels_update p f ls = map (\<lambda>(q, lw). if q = p then (q, f lw) else (q, lw)) ls"

definition levels_erase :: "Price \<Rightarrow> levels \<Rightarrow> levels" where
  "levels_erase p ls = filter (\<lambda>(q, lw). q \<noteq> p) ls"

text \<open>
  The source spells every operation out twice, once for \<^verbatim>\<open>bid_levels_\<close> and
  \<^verbatim>\<open>total_bid_quantity_\<close> and once for the ask side.  The two texts differ only in the
  fields they name; the model writes them once, over the side.
\<close>

definition levels_of :: "Side \<Rightarrow> OrderBook \<Rightarrow> levels" where
  "levels_of sd b = (case sd of BUY \<Rightarrow> bid_levels b | SELL \<Rightarrow> ask_levels b)"

definition set_levels :: "Side \<Rightarrow> levels \<Rightarrow> OrderBook \<Rightarrow> OrderBook" where
  "set_levels sd ls b = (case sd of BUY \<Rightarrow> b\<lparr>bid_levels := ls\<rparr> | SELL \<Rightarrow> b\<lparr>ask_levels := ls\<rparr>)"

definition total_of :: "Side \<Rightarrow> OrderBook \<Rightarrow> Quantity" where
  "total_of sd b = (case sd of BUY \<Rightarrow> total_bid_quantity b | SELL \<Rightarrow> total_ask_quantity b)"

definition set_total :: "Side \<Rightarrow> Quantity \<Rightarrow> OrderBook \<Rightarrow> OrderBook" where
  "set_total sd q b =
     (case sd of BUY \<Rightarrow> b\<lparr>total_bid_quantity := q\<rparr> | SELL \<Rightarrow> b\<lparr>total_ask_quantity := q\<rparr>)"

definition opposite :: "Side \<Rightarrow> Side" where
  "opposite sd = (case sd of BUY \<Rightarrow> SELL | SELL \<Rightarrow> BUY)"

text \<open>The engine: the heap of order objects, the next free address, and the book.\<close>

record engine =
  heap :: heap
  next_addr :: addr
  book :: OrderBook

definition new_engine :: "string \<Rightarrow> engine" where
  "new_engine smb =
     \<lparr> heap = (\<lambda>a. new_Order 0 '''' BUY LIMIT 0 0 GTC), next_addr = 0,
       book = new_OrderBook smb \<rparr>"

text \<open>\<^verbatim>\<open>std::make_shared<Order>(...)\<close>: a new object at a fresh address.\<close>

definition make_shared :: "Order \<Rightarrow> engine \<Rightarrow> addr \<times> engine" where
  "make_shared ord s =
     (next_addr s, s\<lparr> heap := (heap s)(next_addr s := ord), next_addr := Suc (next_addr s) \<rparr>)"

definition get_order :: "OrderId \<Rightarrow> engine \<Rightarrow> addr option" where
  "get_order i s = orders (book s) i"

definition best_bid :: "engine \<Rightarrow> Price option" where
  "best_bid s = (case bid_levels (book s) of [] \<Rightarrow> None | (p, lv) # rest \<Rightarrow> Some p)"

definition best_ask :: "engine \<Rightarrow> Price option" where
  "best_ask s = (case ask_levels (book s) of [] \<Rightarrow> None | (p, lv) # rest \<Rightarrow> Some p)"

definition create_match :: "heap \<Rightarrow> addr \<Rightarrow> addr \<Rightarrow> Quantity \<Rightarrow> OrderMatch" where
  "create_match h maker taker match_qty =
     \<lparr> maker_order_id = order_id (h maker), taker_order_id = order_id (h taker),
       match_price = price (h maker), match_quantity = match_qty \<rparr>"

definition remove_price_level_if_empty :: "Price \<Rightarrow> Side \<Rightarrow> OrderBook \<Rightarrow> OrderBook" where
  "remove_price_level_if_empty p sd b =
     (case map_of (levels_of sd b) p of
        None \<Rightarrow> b
      | Some lv \<Rightarrow> if level_is_empty lv then set_levels sd (levels_erase p (levels_of sd b)) b
                   else b)"

definition add_limit_order_to_book :: "addr \<Rightarrow> engine \<Rightarrow> engine" where
  "add_limit_order_to_book t s =
     (if order_type (heap s t) \<noteq> LIMIT \<or> is_filled (heap s t) then s
      else
        let sd = side (heap s t);
            p = price (heap s t);
            b = book s;
            b1 = (case map_of (levels_of sd b) p of
                    None \<Rightarrow> set_levels sd (levels_insert sd p (new_PriceLevel p) (levels_of sd b)) b
                  | Some lw \<Rightarrow> b);
            b2 = set_total sd (total_of sd b1 + remaining_quantity (heap s t)) b1;
            b3 = set_levels sd (levels_update p (level_add_order (heap s) t) (levels_of sd b2)) b2
        in s\<lparr>book := b3\<lparr>orders := (orders b3)(order_id (heap s t) \<mapsto> t)\<rparr>\<rparr>)"

text \<open>
  One pass of the matching loops, from \<^verbatim>\<open>level->execute_quantity(remaining_qty)\<close> to
  the erasure of the emptied level.  The four loops of \<^verbatim>\<open>match_market_order\<close> and
  \<^verbatim>\<open>match_limit_order\<close> have this text in common.  \<open>opp\<close> is the side that is walked,
  \<open>(p, lv)\<close> its first entry and \<open>rest\<close> the entries after it.
\<close>

definition match_level ::
  "Side \<Rightarrow> addr \<Rightarrow> Price \<Rightarrow> PriceLevel \<Rightarrow> levels \<Rightarrow> engine \<Rightarrow> Quantity \<Rightarrow> OrderMatch list
     \<Rightarrow> (engine \<times> Quantity \<times> OrderMatch list) option" where
  "match_level opp t p lv rest s remaining_qty matches =
     (case execute_quantity (heap s) lv remaining_qty of
        None \<Rightarrow> None
      | Some (h1, lv1, executed) \<Rightarrow>
          let (matches1, remaining1, total1) =
                fold (\<lambda>(maker, exec_qty) (ms, rq, tot).
                        (ms @ [create_match h1 maker t exec_qty], rq - exec_qty, tot - exec_qty))
                  executed (matches, remaining_qty, total_of opp (book s));
              ls1 = (if level_is_empty lv1 then rest else (p, lv1) # rest)
          in Some (s\<lparr> heap := h1, book := set_levels opp ls1 (set_total opp total1 (book s)) \<rparr>,
                   remaining1, matches1))"

lemma execute_quantity_induct [consumes 1, case_names Empty Done Exec Skip]:
  assumes run: "execute_quantity h lv q = Some r"
    and Empty: "\<And>h lv q. level_orders lv = [] \<Longrightarrow> P h lv q (h, lv, [])"
    and Done: "\<And>h lv q. \<not> q > 0 \<Longrightarrow> P h lv q (h, lv, [])"
    and Exec: "\<And>h lv q a rest e h1 lv1 h2 lv2 ex.
        level_orders lv = a # rest \<Longrightarrow> q > 0 \<Longrightarrow>
        e = (if q < remaining_quantity (h a) then q else remaining_quantity (h a)) \<Longrightarrow>
        e > 0 \<Longrightarrow>
        h1 = h(a := execute (h a) e) \<Longrightarrow>
        lv1 = (if is_filled (h1 a)
               then pop_front (order_id (h1 a)) rest (lv\<lparr>total_quantity := total_quantity lv - e\<rparr>)
               else lv\<lparr>total_quantity := total_quantity lv - e\<rparr>) \<Longrightarrow>
        execute_quantity h1 lv1 (q - e) = Some (h2, lv2, ex) \<Longrightarrow>
        P h1 lv1 (q - e) (h2, lv2, ex) \<Longrightarrow>
        P h lv q (h2, lv2, (a, e) # ex)"
    and Skip: "\<And>h lv q a rest r.
        level_orders lv = a # rest \<Longrightarrow> q > 0 \<Longrightarrow>
        \<not> (if q < remaining_quantity (h a) then q else remaining_quantity (h a)) > 0 \<Longrightarrow>
        is_filled (h a) \<Longrightarrow>
        execute_quantity h (pop_front (order_id (h a)) rest lv) q = Some r \<Longrightarrow>
        P h (pop_front (order_id (h a)) rest lv) q r \<Longrightarrow>
        P h lv q r"
  shows "P h lv q r"
  using run
proof (induction h lv q arbitrary: r rule: execute_quantity.induct)
  case (1 h lv q)
  show ?case
  proof (cases "level_orders lv")
    case Nil
    with "1.prems" Empty[OF Nil, of h q] show ?thesis by (simp add: execute_quantity.simps)
  next
    case (Cons a rest)
    show ?thesis
    proof (cases "q > 0")
      case False
      with "1.prems" Cons Done[OF False, of h lv] show ?thesis
        by (simp add: execute_quantity.simps)
    next
      case True
      let ?e = "if q < remaining_quantity (h a) then q else remaining_quantity (h a)"
      let ?h1 = "h(a := execute (h a) ?e)"
      let ?lv0 = "lv\<lparr>total_quantity := total_quantity lv - ?e\<rparr>"
      let ?lv1 = "if is_filled (?h1 a) then pop_front (order_id (?h1 a)) rest ?lv0 else ?lv0"
      show ?thesis
      proof (cases "?e > 0")
        case epos: True
        from "1.prems" Cons True epos obtain h2 lv2 ex where
          rec: "execute_quantity ?h1 ?lv1 (q - ?e) = Some (h2, lv2, ex)" and
          r: "r = (h2, lv2, (a, ?e) # ex)"
          by (subst (asm) execute_quantity.simps) (auto simp: Let_def)
        have neg: "\<not> \<not> 0 < q" using True by simp
        have "P ?h1 ?lv1 (q - ?e) (h2, lv2, ex)"
          by (rule "1.IH"(1)[OF Cons neg refl refl epos refl refl refl rec])
        from Exec[OF Cons True refl epos refl refl rec this] r show ?thesis by simp
      next
        case enonpos: False
        from "1.prems" Cons True enonpos have filled: "is_filled (h a)"
          by (subst (asm) execute_quantity.simps) (auto simp: Let_def split: if_splits)
        from "1.prems" Cons True enonpos filled have
          rec: "execute_quantity h (pop_front (order_id (h a)) rest lv) q = Some r"
          by (subst (asm) execute_quantity.simps) (auto simp: Let_def split: if_splits)
        have neg: "\<not> \<not> 0 < q" using True by simp
        have "P h (pop_front (order_id (h a)) rest lv) q r"
          by (rule "1.IH"(2)[OF Cons neg refl refl enonpos filled rec])
        from Skip[OF Cons True enonpos filled rec this] show ?thesis .
      qed
    qed
  qed
qed

lemma execute_quantity_cases [consumes 1, case_names Empty Done Exec Skip]:
  assumes run: "execute_quantity h lv q = Some (h', lv', ex')"
    and Empty: "\<And>h lv q. level_orders lv = [] \<Longrightarrow> P h lv q h lv []"
    and Done: "\<And>h lv q. \<not> q > 0 \<Longrightarrow> P h lv q h lv []"
    and Exec: "\<And>h lv q a rest e h1 lv1 h2 lv2 ex.
        level_orders lv = a # rest \<Longrightarrow> q > 0 \<Longrightarrow>
        e = (if q < remaining_quantity (h a) then q else remaining_quantity (h a)) \<Longrightarrow>
        e > 0 \<Longrightarrow>
        h1 = h(a := execute (h a) e) \<Longrightarrow>
        lv1 = (if is_filled (h1 a)
               then pop_front (order_id (h1 a)) rest (lv\<lparr>total_quantity := total_quantity lv - e\<rparr>)
               else lv\<lparr>total_quantity := total_quantity lv - e\<rparr>) \<Longrightarrow>
        execute_quantity h1 lv1 (q - e) = Some (h2, lv2, ex) \<Longrightarrow>
        P h1 lv1 (q - e) h2 lv2 ex \<Longrightarrow>
        P h lv q h2 lv2 ((a, e) # ex)"
    and Skip: "\<And>h lv q a rest h2 lv2 ex.
        level_orders lv = a # rest \<Longrightarrow> q > 0 \<Longrightarrow>
        remaining_quantity (h a) \<le> 0 \<Longrightarrow>
        is_filled (h a) \<Longrightarrow>
        execute_quantity h (pop_front (order_id (h a)) rest lv) q = Some (h2, lv2, ex) \<Longrightarrow>
        P h (pop_front (order_id (h a)) rest lv) q h2 lv2 ex \<Longrightarrow>
        P h lv q h2 lv2 ex"
  shows "P h lv q h' lv' ex'"
proof -
  have "P h lv q (fst (h', lv', ex')) (fst (snd (h', lv', ex'))) (snd (snd (h', lv', ex')))"
    using run
  proof (induction rule: execute_quantity_induct)
    case (Empty h lv q)
    then show ?case using assms(2) by simp
  next
    case (Done h lv q)
    then show ?case using assms(3) by simp
  next
    case (Exec h lv q a rest e h1 lv1 h2 lv2 ex)
    from assms(4)[OF Exec.hyps] Exec.IH show ?case by simp
  next
    case (Skip h lv q a rest r)
    from Skip.hyps(2,3) have le: "remaining_quantity (h a) \<le> 0" by (auto split: if_splits)
    obtain h2 lv2 ex where r: "r = (h2, lv2, ex)" by (cases r)
    have "P h lv q h2 lv2 ex"
    proof (rule assms(5)[where a=a and rest=rest])
      show "level_orders lv = a # rest" by (fact Skip.hyps(1))
      show "0 < q" by (fact Skip.hyps(2))
      show "remaining_quantity (h a) \<le> 0" by (fact le)
      show "is_filled (h a)" by (fact Skip.hyps(4))
      show "execute_quantity h (pop_front (order_id (h a)) rest lv) q = Some (h2, lv2, ex)"
        using Skip.hyps(5) r by simp
      show "P h (pop_front (order_id (h a)) rest lv) q h2 lv2 ex"
        using Skip.IH r by simp
    qed
    with r show ?case by simp
  qed
  then show ?thesis by simp
qed

lemma execute_quantity_stops:
  "execute_quantity h lv q = Some (h1, lv1, executed) \<Longrightarrow>
   level_orders lv1 = [] \<or> q - sum_list (map snd executed) \<le> 0"
  by (induction rule: execute_quantity_cases) (auto simp: algebra_simps)

lemma fold_matches:
  "fold (\<lambda>(maker, exec_qty) (ms, rq, tot).
           (ms @ [create_match h maker t exec_qty], rq - exec_qty, tot - exec_qty))
     executed (matches, q, tot0)
   = (matches @ map (\<lambda>(maker, exec_qty). create_match h maker t exec_qty) executed,
      q - sum_list (map snd executed), tot0 - sum_list (map snd executed))"
  by (induction executed arbitrary: matches q tot0) (auto simp: algebra_simps)

lemma levels_of_set_levels [simp]:
  "levels_of sd (set_levels sd' ls b) = (if sd = sd' then ls else levels_of sd b)"
  by (cases sd; cases sd') (simp_all add: levels_of_def set_levels_def)

lemma levels_of_set_total [simp]: "levels_of sd (set_total sd' q b) = levels_of sd b"
  by (cases sd; cases sd') (simp_all add: levels_of_def set_total_def)

lemma total_of_set_total [simp]:
  "total_of sd (set_total sd' q b) = (if sd = sd' then q else total_of sd b)"
  by (cases sd; cases sd') (simp_all add: total_of_def set_total_def)

lemma total_of_set_levels [simp]: "total_of sd (set_levels sd' ls b) = total_of sd b"
  by (cases sd; cases sd') (simp_all add: total_of_def set_levels_def)

lemma orders_set_levels [simp]: "orders (set_levels sd ls b) = orders b"
  by (cases sd) (simp_all add: set_levels_def)

lemma orders_set_total [simp]: "orders (set_total sd q b) = orders b"
  by (cases sd) (simp_all add: set_total_def)

lemma match_level_Some:
  "match_level opp t p lv rest s q matches = Some (s1, q1, matches1) \<longleftrightarrow>
   (\<exists>h1 lv1 executed.
      execute_quantity (heap s) lv q = Some (h1, lv1, executed)
      \<and> s1 = s\<lparr> heap := h1,
                 book := set_levels opp (if level_is_empty lv1 then rest else (p, lv1) # rest)
                           (set_total opp (total_of opp (book s) - sum_list (map snd executed))
                              (book s)) \<rparr>
      \<and> q1 = q - sum_list (map snd executed)
      \<and> matches1 = matches @ map (\<lambda>(maker, exec_qty). create_match h1 maker t exec_qty) executed)"
  by (auto simp: match_level_def fold_matches Let_def split: option.splits)

lemma match_level_progress:
  assumes "match_level opp t p lv rest s q matches = Some (s1, q1, matches1)"
    and "\<not> q1 \<le> 0"
  shows "levels_of opp (book s1) = rest"
proof -
  from assms(1) obtain h1 lv1 executed where
    ex: "execute_quantity (heap s) lv q = Some (h1, lv1, executed)" and
    s1: "s1 = s\<lparr> heap := h1,
                 book := set_levels opp (if level_is_empty lv1 then rest else (p, lv1) # rest)
                           (set_total opp (total_of opp (book s) - sum_list (map snd executed))
                              (book s)) \<rparr>" and
    q1: "q1 = q - sum_list (map snd executed)"
    unfolding match_level_Some by blast
  from execute_quantity_stops[OF ex] assms(2) q1 have "level_orders lv1 = []" by auto
  with s1 show ?thesis by (simp add: level_is_empty_def)
qed

text \<open>
  The loop of \<^verbatim>\<open>match_market_order\<close> (\<open>limit = None\<close>) and of
  \<^verbatim>\<open>match_limit_order\<close> (\<open>limit = Some limit_price\<close>) for a taker \<open>t\<close> of side \<open>sd\<close>:
  a buy walks the asks and stops at a best ask above its limit, a sell walks the bids and
  stops at a best bid below its limit.
\<close>

definition beyond_limit :: "Side \<Rightarrow> Price \<Rightarrow> Price option \<Rightarrow> bool" where
  "beyond_limit sd p limit =
     (case limit of
        None \<Rightarrow> False
      | Some limit_price \<Rightarrow> (case sd of BUY \<Rightarrow> p > limit_price | SELL \<Rightarrow> p < limit_price))"

function match_walk ::
  "Side \<Rightarrow> Price option \<Rightarrow> addr \<Rightarrow> engine \<Rightarrow> Quantity \<Rightarrow> OrderMatch list
     \<Rightarrow> (engine \<times> Quantity \<times> OrderMatch list) option" where
  "match_walk sd limit t s remaining_qty matches =
     (if \<not> remaining_qty > 0 then Some (s, remaining_qty, matches)
      else
        case levels_of (opposite sd) (book s) of
          [] \<Rightarrow> Some (s, remaining_qty, matches)
        | (p, lv) # rest \<Rightarrow>
            if beyond_limit sd p limit then Some (s, remaining_qty, matches)
            else
              (case match_level (opposite sd) t p lv rest s remaining_qty matches of
                 None \<Rightarrow> None
               | Some (s1, remaining1, matches1) \<Rightarrow>
                   if remaining1 \<le> 0
                      \<or> (time_in_force (heap s1 t) = FOK \<and> remaining1 < quantity (heap s1 t))
                   then Some (s1, remaining1, matches1)
                   else match_walk sd limit t s1 remaining1 matches1))"
  by pat_completeness auto
termination
  apply (relation "measure (\<lambda>(sd, limit, t, s, q, ms). length (levels_of (opposite sd) (book s)))")
   apply simp
  apply clarsimp
  apply (frule match_level_progress)
   apply simp
  apply simp
  done

declare match_walk.simps [simp del]

definition match_market_order :: "addr \<Rightarrow> engine \<Rightarrow> (OrderMatch list \<times> engine) option" where
  "match_market_order t s =
     (if order_type (heap s t) \<noteq> MARKET then Some ([], s)
      else
        case match_walk (side (heap s t)) None t s (remaining_quantity (heap s t)) [] of
          None \<Rightarrow> None
        | Some (s1, remaining_qty, matches) \<Rightarrow>
            let s2 = s1\<lparr>heap := (heap s1)
                       (t := execute (heap s1 t) (quantity (heap s1 t) - remaining_qty))\<rparr>
            in if time_in_force (heap s2 t) = FOK \<and> remaining_qty > 0
               then Some ([], s2\<lparr>heap := (heap s2)(t := set_status CANCELLED (heap s2 t))\<rparr>)
               else Some (matches, s2))"

definition match_limit_order :: "addr \<Rightarrow> engine \<Rightarrow> (OrderMatch list \<times> engine) option" where
  "match_limit_order t s =
     (if order_type (heap s t) \<noteq> LIMIT then Some ([], s)
      else
        case match_walk (side (heap s t)) (Some (price (heap s t))) t s
               (remaining_quantity (heap s t)) [] of
          None \<Rightarrow> None
        | Some (s1, remaining_qty, matches) \<Rightarrow>
            let s2 = s1\<lparr>heap := (heap s1)
                       (t := execute (heap s1 t) (quantity (heap s1 t) - remaining_qty))\<rparr>
            in if time_in_force (heap s2 t) = FOK \<and> remaining_qty > 0
               then Some ([], s2\<lparr>heap := (heap s2)(t := set_status CANCELLED (heap s2 t))\<rparr>)
               else Some (matches, s2))"

definition add_order :: "addr \<Rightarrow> engine \<Rightarrow> (OrderMatch list \<times> engine) option" where
  "add_order t s =
     (if \<not> is_valid (heap s t) then Some ([], s)
      else
        let s1 = s\<lparr>heap := (heap s)(t := set_status ACCEPTED (heap s t))\<rparr> in
        if order_type (heap s1 t) = MARKET then match_market_order t s1
        else if order_type (heap s1 t) = LIMIT then
          (case match_limit_order t s1 of
             None \<Rightarrow> None
           | Some (matches, s2) \<Rightarrow>
               if \<not> is_filled (heap s2 t) \<and> time_in_force (heap s2 t) \<noteq> IOC
               then Some (matches, add_limit_order_to_book t s2)
               else Some (matches, s2))
        else Some ([], s1))"

definition cancel_order :: "OrderId \<Rightarrow> engine \<Rightarrow> bool \<times> engine" where
  "cancel_order i s =
     (case orders (book s) i of
        None \<Rightarrow> (False, s)
      | Some a \<Rightarrow>
          let p = price (heap s a);
              sd = side (heap s a);
              b = book s
          in (case map_of (levels_of sd b) p of
                None \<Rightarrow> (False, s)
              | Some lv \<Rightarrow>
                  let (removed, lv1) = remove_order (heap s) i lv in
                  if removed then
                    let b1 = set_levels sd (levels_update p (\<lambda>lw. lv1) (levels_of sd b)) b;
                        b2 = set_total sd (total_of sd b1 - remaining_quantity (heap s a)) b1;
                        b3 = remove_price_level_if_empty p sd b2
                    in (True, s\<lparr> heap := (heap s)(a := cancel (heap s a)),
                                  book := b3\<lparr>orders := (orders b3)(i := None)\<rparr> \<rparr>)
                  else (False, s)))"

definition modify_order ::
  "OrderId \<Rightarrow> Price option \<Rightarrow> Quantity option \<Rightarrow> engine \<Rightarrow> (OrderMatch list \<times> engine) option" where
  "modify_order i new_price new_quantity s =
     (if new_price = None \<and> new_quantity = None then Some ([], s)
      else
        case orders (book s) i of
          None \<Rightarrow> Some ([], s)
        | Some a \<Rightarrow>
            if new_price = None \<and> new_quantity \<noteq> None
               \<and> the new_quantity \<le> quantity (heap s a)
            then
              let p = price (heap s a);
                  sd = side (heap s a);
                  b = book s;
                  s1 = (case map_of (levels_of sd b) p of
                          None \<Rightarrow> s
                        | Some lv \<Rightarrow>
                            let old_remaining = remaining_quantity (heap s a);
                                (ok, h1, lv1) =
                                   modify_order_quantity (heap s) i (the new_quantity) lv;
                                new_remaining = remaining_quantity (h1 a);
                                b1 = set_levels sd (levels_update p (\<lambda>lw. lv1) (levels_of sd b)) b
                            in s\<lparr> heap := h1,
                                  book := set_total sd
                                    (total_of sd b1 - old_remaining + new_remaining) b1 \<rparr>)
              in Some ([], s1\<lparr>heap := (heap s1)(a := set_status REPLACED (heap s1 a))\<rparr>)
            else
              let (cancelled, s1) = cancel_order i s in
              if \<not> cancelled then Some ([], s1)
              else
                let (n, s2) = make_shared
                      (new_Order i (symbol (heap s1 a)) (side (heap s1 a)) (order_type (heap s1 a))
                         (case new_quantity of None \<Rightarrow> quantity (heap s1 a) | Some q \<Rightarrow> q)
                         (case new_price of None \<Rightarrow> price (heap s1 a) | Some p \<Rightarrow> p)
                         (time_in_force (heap s1 a)))
                      s1
                in add_order n s2)"

section \<open>Operations of the engine\<close>

text \<open>
  A submission as the callers of the book make it: construct the order object, then hand
  its pointer to \<^verbatim>\<open>add_order\<close>.  The object is at the address \<open>next_addr s\<close> of the
  state before the call.
\<close>

definition submit ::
  "OrderId \<Rightarrow> string \<Rightarrow> Side \<Rightarrow> OrderType \<Rightarrow> Quantity \<Rightarrow> Price \<Rightarrow> TimeInForce \<Rightarrow> engine
     \<Rightarrow> (OrderMatch list \<times> engine) option" where
  "submit i smb sd ty q p tif s =
     (let (t, s1) = make_shared (new_Order i smb sd ty q p tif) s in add_order t s1)"

datatype op =
  Submit OrderId string Side OrderType Quantity Price TimeInForce
| Cancel OrderId
| Modify OrderId "Price option" "Quantity option"

fun apply_op :: "op \<Rightarrow> engine \<Rightarrow> engine option" where
  "apply_op (Submit i smb sd ty q p tif) s = map_option snd (submit i smb sd ty q p tif s)"
| "apply_op (Cancel i) s = Some (snd (cancel_order i s))"
| "apply_op (Modify i new_price new_quantity) s =
     map_option snd (modify_order i new_price new_quantity s)"

fun run :: "op list \<Rightarrow> engine \<Rightarrow> engine option" where
  "run [] s = Some s"
| "run (x # xs) s = (case apply_op x s of None \<Rightarrow> None | Some s1 \<Rightarrow> run xs s1)"

text \<open>The read-only queries used below (\<^verbatim>\<open>get_orders_at_level\<close>, \<^verbatim>\<open>get_quantity_at_level\<close>).\<close>

definition get_orders_at_level :: "Price \<Rightarrow> Side \<Rightarrow> engine \<Rightarrow> addr list" where
  "get_orders_at_level p sd s =
     (case map_of (levels_of sd (book s)) p of None \<Rightarrow> [] | Some lv \<Rightarrow> level_orders lv)"

definition get_quantity_at_level :: "Price \<Rightarrow> Side \<Rightarrow> engine \<Rightarrow> Quantity" where
  "get_quantity_at_level p sd s =
     (case map_of (levels_of sd (book s)) p of None \<Rightarrow> 0 | Some lv \<Rightarrow> total_quantity lv)"

text \<open>
  The orders that rest on the book are the orders held by the price levels of the two
  sides.  An id is resting when one of them carries it.
\<close>

definition book_addrs :: "Side \<Rightarrow> engine \<Rightarrow> addr list" where
  "book_addrs sd s = concat (map (\<lambda>e. level_orders (snd e)) (levels_of sd (book s)))"

definition all_addrs :: "engine \<Rightarrow> addr list" where
  "all_addrs s = book_addrs BUY s @ book_addrs SELL s"

definition is_resting :: "OrderId \<Rightarrow> engine \<Rightarrow> bool" where
  "is_resting i s = list_ex (\<lambda>a. order_id (heap s a) = i) (all_addrs s)"

text \<open>
  Valid operations, after the preconditions of the specification: a submission carries
  an id that is not null and not resting, a positive quantity, a type \<open>LIMIT\<close> or
  \<open>MARKET\<close> and, for a limit order, a positive price; the new values of a modification
  are positive.
\<close>

fun valid_op :: "op \<Rightarrow> engine \<Rightarrow> bool" where
  "valid_op (Submit i smb sd ty q p tif) s =
     (i \<noteq> INVALID_ORDER_ID \<and> \<not> is_resting i s \<and> 0 < q
      \<and> (if ty = LIMIT then 0 < p else ty = MARKET))"
| "valid_op (Cancel i) s = True"
| "valid_op (Modify i new_price new_quantity) s =
     ((case new_price of None \<Rightarrow> True | Some p \<Rightarrow> 0 < p)
      \<and> (case new_quantity of None \<Rightarrow> True | Some q \<Rightarrow> 0 < q))"

text \<open>Every operation of the list is valid in the state it is applied to.\<close>

fun valid_run :: "op list \<Rightarrow> engine \<Rightarrow> bool" where
  "valid_run [] s = True"
| "valid_run (x # xs) s =
     (valid_op x s \<and> (case apply_op x s of None \<Rightarrow> True | Some s1 \<Rightarrow> valid_run xs s1))"

section \<open>What one call of \<open>execute_quantity\<close> does\<close>

text \<open>The fields of an order that no operation of the engine writes after construction.\<close>

definition static :: "Order \<Rightarrow> OrderId \<times> string \<times> Side \<times> OrderType \<times> Price \<times> TimeInForce" where
  "static ord =
     (order_id ord, symbol ord, side ord, order_type ord, price ord, time_in_force ord)"

lemma static_execute [simp]: "static (execute ord e) = static ord"
  by (simp add: static_def execute_def Let_def)

lemma static_set_status [simp]: "static (set_status st ord) = static ord"
  by (simp add: static_def set_status_def)

lemma static_set_quantity [simp]: "static (set_quantity q ord) = static ord"
  by (simp add: static_def set_quantity_def)

lemma static_cancel [simp]: "static (cancel ord) = static ord"
  by (simp add: static_def cancel_def)

lemma quantity_execute [simp]: "quantity (execute ord e) = quantity ord"
  by (simp add: execute_def Let_def)

lemma order_id_execute [simp]: "order_id (execute ord e) = order_id ord"
  by (simp add: execute_def Let_def)

lemma static_fields:
  "static x = static y \<Longrightarrow>
   order_id x = order_id y \<and> side x = side y \<and> order_type x = order_type y
   \<and> price x = price y \<and> time_in_force x = time_in_force y \<and> symbol x = symbol y"
  by (simp add: static_def)

lemma execute_quantity_static:
  "execute_quantity h lv q = Some (h1, lv1, executed) \<Longrightarrow>
   static (h1 a) = static (h a) \<and> quantity (h1 a) = quantity (h a)"
  by (induction rule: execute_quantity_cases) auto

lemma execute_quantity_frame:
  "execute_quantity h lv q = Some (h1, lv1, executed) \<Longrightarrow>
   a \<notin> set (level_orders lv) \<longrightarrow> h1 a = h a"
  by (induction rule: execute_quantity_cases) (auto simp: pop_front_def split: if_splits)

lemma execute_quantity_total:
  "execute_quantity h lv q = Some (h1, lv1, executed) \<Longrightarrow>
   level_price lv1 = level_price lv
   \<and> total_quantity lv1 = total_quantity lv - sum_list (map snd executed)"
  by (induction rule: execute_quantity_cases) (auto simp: pop_front_def split: if_splits)

lemma execute_quantity_bound:
  "execute_quantity h lv q = Some (h1, lv1, executed) \<Longrightarrow>
   0 \<le> sum_list (map snd executed)
   \<and> (0 < q \<longrightarrow> sum_list (map snd executed) \<le> q)
   \<and> (\<not> 0 < q \<longrightarrow> executed = [])"
  by (induction rule: execute_quantity_cases) (auto split: if_splits)

lemma execute_quantity_suffix:
  "execute_quantity h lv q = Some (h1, lv1, executed) \<Longrightarrow>
   \<exists>popped. level_orders lv = popped @ level_orders lv1
     \<and> (\<forall>i a. order_map lv1 i = Some a \<longrightarrow> order_map lv i = Some a)
     \<and> (\<forall>i. i \<notin> (\<lambda>a. order_id (h a)) ` set popped \<longrightarrow> order_map lv1 i = order_map lv i)"
proof (induction rule: execute_quantity_cases)
  case (Empty h lv q)
  show ?case by (rule exI[of _ "[]"]) simp
next
  case (Done h lv q)
  show ?case by (rule exI[of _ "[]"]) simp
next
  case (Exec h lv q a rest e h1 lv1 h2 lv2 ex)
  from Exec.IH obtain popped where
    p1: "level_orders lv1 = popped @ level_orders lv2" and
    p2: "\<And>i b. order_map lv2 i = Some b \<Longrightarrow> order_map lv1 i = Some b" and
    p3: "\<And>i. i \<notin> (\<lambda>a. order_id (h1 a)) ` set popped \<Longrightarrow> order_map lv2 i = order_map lv1 i"
    by blast
  have ids: "\<And>b. order_id (h1 b) = order_id (h b)"
    using Exec.hyps(5) by simp
  show ?case
  proof (cases "is_filled (h1 a)")
    case True
    with Exec.hyps(6) have lv1: "level_orders lv1 = rest"
      "order_map lv1 = (order_map lv)(order_id (h a) := None)"
      by (simp_all add: pop_front_def ids)
    have c1: "level_orders lv = (a # popped) @ level_orders lv2"
      using Exec.hyps(1) lv1(1) p1 by simp
    have c2: "\<forall>i b. order_map lv2 i = Some b \<longrightarrow> order_map lv i = Some b"
    proof (intro allI impI)
      fix i b assume "order_map lv2 i = Some b"
      from p2[OF this] lv1(2) show "order_map lv i = Some b" by (auto split: if_splits)
    qed
    have c3: "\<forall>i. i \<notin> (\<lambda>a. order_id (h a)) ` set (a # popped) \<longrightarrow> order_map lv2 i = order_map lv i"
    proof (intro allI impI)
      fix i assume i: "i \<notin> (\<lambda>a. order_id (h a)) ` set (a # popped)"
      then have "i \<notin> (\<lambda>a. order_id (h1 a)) ` set popped" and ne: "i \<noteq> order_id (h a)"
        by (auto simp: ids)
      from p3[OF this(1)] lv1(2) ne show "order_map lv2 i = order_map lv i" by simp
    qed
    from c1 c2 c3 show ?thesis by blast
  next
    case False
    with Exec.hyps(6) have lv1: "level_orders lv1 = level_orders lv" "order_map lv1 = order_map lv"
      by simp_all
    have c1: "level_orders lv = popped @ level_orders lv2" using lv1(1) p1 by simp
    have c2: "\<forall>i b. order_map lv2 i = Some b \<longrightarrow> order_map lv i = Some b"
      using p2 lv1(2) by simp
    have c3: "\<forall>i. i \<notin> (\<lambda>a. order_id (h a)) ` set popped \<longrightarrow> order_map lv2 i = order_map lv i"
      using p3 lv1(2) by (simp add: ids)
    from c1 c2 c3 show ?thesis by blast
  qed
next
  case (Skip h lv q a rest h2 lv2 ex)
  from Skip.IH obtain popped where
    p1: "rest = popped @ level_orders lv2" and
    p2: "\<And>i b. order_map lv2 i = Some b \<Longrightarrow> ((order_map lv)(order_id (h a) := None)) i = Some b" and
    p3: "\<And>i. i \<notin> (\<lambda>a. order_id (h a)) ` set popped
          \<Longrightarrow> order_map lv2 i = ((order_map lv)(order_id (h a) := None)) i"
    by (auto simp: pop_front_def)
  have c1: "level_orders lv = (a # popped) @ level_orders lv2"
    using Skip.hyps(1) p1 by simp
  have c2: "\<forall>i b. order_map lv2 i = Some b \<longrightarrow> order_map lv i = Some b"
  proof (intro allI impI)
    fix i b assume "order_map lv2 i = Some b"
    from p2[OF this] show "order_map lv i = Some b" by (auto split: if_splits)
  qed
  have c3: "\<forall>i. i \<notin> (\<lambda>a. order_id (h a)) ` set (a # popped) \<longrightarrow> order_map lv2 i = order_map lv i"
  proof (intro allI impI)
    fix i assume i: "i \<notin> (\<lambda>a. order_id (h a)) ` set (a # popped)"
    then have "i \<notin> (\<lambda>a. order_id (h a)) ` set popped" and ne: "i \<noteq> order_id (h a)"
      by auto
    from p3[OF this(1)] ne show "order_map lv2 i = order_map lv i" by simp
  qed
  from c1 c2 c3 show ?case by blast
qed

text \<open>What every order in a price level satisfies between two operations.\<close>

definition resting_ok :: "Order \<Rightarrow> bool" where
  "resting_ok ord \<longleftrightarrow>
     order_type ord = LIMIT
     \<and> 0 \<le> executed_quantity ord \<and> executed_quantity ord \<le> quantity ord
     \<and> status ord \<noteq> NEW \<and> status ord \<noteq> FILLED \<and> status ord \<noteq> REJECTED
     \<and> (executed_quantity ord = quantity ord \<longrightarrow> status ord = REPLACED)
     \<and> (status ord = CANCELLED \<longrightarrow> time_in_force ord = FOK)"

lemma resting_ok_execute:
  "resting_ok ord \<Longrightarrow> 0 < e \<Longrightarrow> e \<le> remaining_quantity ord \<Longrightarrow>
   \<not> is_filled (execute ord e) \<Longrightarrow> resting_ok (execute ord e)"
  by (auto simp: resting_ok_def execute_def remaining_quantity_def is_filled_def Let_def
      split: if_splits)

lemma remaining_execute:
  "e \<le> remaining_quantity ord \<Longrightarrow>
   remaining_quantity (execute ord e) = remaining_quantity ord - e"
  by (auto simp: execute_def remaining_quantity_def Let_def)

lemma is_filled_execute:
  "resting_ok ord \<Longrightarrow> e \<le> remaining_quantity ord \<Longrightarrow>
   is_filled (execute ord e) \<longleftrightarrow> e = remaining_quantity ord"
  by (auto simp: resting_ok_def execute_def remaining_quantity_def is_filled_def Let_def)

lemma execute_quantity_sum:
  "execute_quantity h lv q = Some (h1, lv1, executed) \<Longrightarrow>
   distinct (level_orders lv) \<and> (\<forall>a\<in>set (level_orders lv). resting_ok (h a)) \<longrightarrow>
   (\<Sum>a\<leftarrow>level_orders lv1. remaining_quantity (h1 a))
      = (\<Sum>a\<leftarrow>level_orders lv. remaining_quantity (h a)) - sum_list (map snd executed)
   \<and> (\<forall>a\<in>set (level_orders lv1). resting_ok (h1 a))"
proof (induction rule: execute_quantity_cases)
  case (Exec h lv q a rest e h1 lv1 h2 lv2 ex)
  show ?case
  proof (rule impI)
    assume pre: "distinct (level_orders lv) \<and> (\<forall>a\<in>set (level_orders lv). resting_ok (h a))"
    with Exec.hyps(1) have a: "resting_ok (h a)" "a \<notin> set rest" "distinct rest"
      "\<forall>b\<in>set rest. resting_ok (h b)"
      by auto
    have e: "0 < e" "e \<le> remaining_quantity (h a)"
      using Exec.hyps by (auto split: if_splits)
    have h1a: "h1 a = execute (h a) e" and h1o: "\<forall>b. b \<noteq> a \<longrightarrow> h1 b = h b"
      using Exec.hyps(5) by simp_all
    have meq: "map (\<lambda>b. remaining_quantity (h1 b)) rest = map (\<lambda>b. remaining_quantity (h b)) rest"
      using a(2) h1o by (intro map_cong) auto
    have rest_sum:
      "(\<Sum>b\<leftarrow>rest. remaining_quantity (h1 b)) = (\<Sum>b\<leftarrow>rest. remaining_quantity (h b))"
      by (rule arg_cong[OF meq])
    show "(\<Sum>a\<leftarrow>level_orders lv2. remaining_quantity (h2 a))
          = (\<Sum>a\<leftarrow>level_orders lv. remaining_quantity (h a))
              - sum_list (map snd ((a, e) # ex))
          \<and> (\<forall>a\<in>set (level_orders lv2). resting_ok (h2 a))"
    proof (cases "is_filled (h1 a)")
      case True
      then have erem: "e = remaining_quantity (h a)"
        using is_filled_execute[OF a(1) e(2)] h1a by simp
      from True Exec.hyps(6) have lv1: "level_orders lv1 = rest" by (simp add: pop_front_def)
      have pre1: "distinct (level_orders lv1) \<and> (\<forall>b\<in>set (level_orders lv1). resting_ok (h1 b))"
        using lv1 a h1o by auto
      from Exec.IH pre1 lv1 rest_sum Exec.hyps(1) erem show ?thesis by simp
    next
      case False
      with Exec.hyps(6) have lv1: "level_orders lv1 = a # rest" using Exec.hyps(1) by simp
      have ra: "resting_ok (h1 a)"
        using resting_ok_execute[OF a(1) e] False h1a by simp
      have pre1: "distinct (level_orders lv1) \<and> (\<forall>b\<in>set (level_orders lv1). resting_ok (h1 b))"
        using lv1 a h1o ra by auto
      have "remaining_quantity (h1 a) = remaining_quantity (h a) - e"
        using remaining_execute[OF e(2)] h1a by simp
      with Exec.IH pre1 lv1 rest_sum Exec.hyps(1) show ?thesis by simp
    qed
  qed
next
  case (Skip h lv q a rest h2 lv2 ex)
  show ?case
  proof (rule impI)
    assume pre: "distinct (level_orders lv) \<and> (\<forall>a\<in>set (level_orders lv). resting_ok (h a))"
    with Skip.hyps(1) have a: "resting_ok (h a)" "distinct rest" "\<forall>b\<in>set rest. resting_ok (h b)"
      by auto
    from Skip.hyps(3) a(1) have "remaining_quantity (h a) = 0"
      by (simp add: resting_ok_def remaining_quantity_def)
    with Skip.IH a Skip.hyps(1)
    show "(\<Sum>a\<leftarrow>level_orders lv2. remaining_quantity (h2 a))
          = (\<Sum>a\<leftarrow>level_orders lv. remaining_quantity (h a)) - sum_list (map snd ex)
          \<and> (\<forall>a\<in>set (level_orders lv2). resting_ok (h2 a))"
      by (simp add: pop_front_def)
  qed
qed auto

lemma execute_quantity_returns:
  "(\<forall>a\<in>set (level_orders lv). executed_quantity (h a) \<le> quantity (h a)) \<Longrightarrow>
   \<exists>r. execute_quantity h lv q = Some r"
proof (induction h lv q rule: execute_quantity.induct)
  case (1 h lv q)
  show ?case
  proof (cases "level_orders lv")
    case Nil
    then show ?thesis by (simp add: execute_quantity.simps)
  next
    case (Cons a rest)
    show ?thesis
    proof (cases "q > 0")
      case False
      with Cons show ?thesis by (simp add: execute_quantity.simps)
    next
      case True
      let ?e = "if q < remaining_quantity (h a) then q else remaining_quantity (h a)"
      let ?h1 = "h(a := execute (h a) ?e)"
      let ?lv0 = "lv\<lparr>total_quantity := total_quantity lv - ?e\<rparr>"
      let ?lv1 = "if is_filled (?h1 a) then pop_front (order_id (?h1 a)) rest ?lv0 else ?lv0"
      have neg: "\<not> \<not> 0 < q" using True by simp
      have le: "\<forall>b\<in>set (a # rest). executed_quantity (h b) \<le> quantity (h b)"
        using "1.prems" Cons by simp
      show ?thesis
      proof (cases "?e > 0")
        case epos: True
        have "\<forall>b\<in>set (level_orders ?lv1). executed_quantity (?h1 b) \<le> quantity (?h1 b)"
          using le Cons by (auto simp: pop_front_def execute_def remaining_quantity_def Let_def)
        from "1.IH"(1)[OF Cons neg refl refl epos refl refl refl this]
        obtain r where "execute_quantity ?h1 ?lv1 (q - ?e) = Some r" by blast
        with Cons True epos show ?thesis
          by (subst execute_quantity.simps) (auto simp: Let_def split_beta)
      next
        case enonpos: False
        with True have "remaining_quantity (h a) \<le> 0" by (auto split: if_splits)
        with le have filled: "is_filled (h a)"
          by (simp add: is_filled_def remaining_quantity_def)
        have "\<forall>b\<in>set (level_orders (pop_front (order_id (h a)) rest lv)).
                executed_quantity (h b) \<le> quantity (h b)"
          using le by (simp add: pop_front_def)
        from "1.IH"(2)[OF Cons neg refl refl enonpos filled this]
        obtain r where "execute_quantity h (pop_front (order_id (h a)) rest lv) q = Some r"
          by blast
        with Cons True enonpos filled show ?thesis
          by (subst execute_quantity.simps) (cases r, auto simp: Let_def)
      qed
    qed
  qed
qed

lemma execute_quantity_popped:
  "execute_quantity h lv q = Some (h1, lv1, executed) \<Longrightarrow>
   \<exists>popped. level_orders lv = popped @ level_orders lv1
     \<and> (\<forall>i\<in>(\<lambda>a. order_id (h a)) ` set popped. order_map lv1 i = None)"
proof (induction rule: execute_quantity_cases)
  case (Empty h lv q)
  show ?case by (rule exI[of _ "[]"]) simp
next
  case (Done h lv q)
  show ?case by (rule exI[of _ "[]"]) simp
next
  case (Exec h lv q a rest e h1 lv1 h2 lv2 ex)
  from Exec.IH obtain popped where
    p1: "level_orders lv1 = popped @ level_orders lv2" and
    p2: "\<forall>i\<in>(\<lambda>a. order_id (h1 a)) ` set popped. order_map lv2 i = None"
    by blast
  have ids: "\<And>b. order_id (h1 b) = order_id (h b)"
    using Exec.hyps(5) by simp
  from execute_quantity_suffix[OF Exec.hyps(7)]
  have sub: "\<And>i b. order_map lv2 i = Some b \<Longrightarrow> order_map lv1 i = Some b" by blast
  show ?case
  proof (cases "is_filled (h1 a)")
    case True
    with Exec.hyps(6) have lv1: "level_orders lv1 = rest"
      "order_map lv1 (order_id (h a)) = None"
      by (simp_all add: pop_front_def ids)
    have "order_map lv2 (order_id (h a)) = None"
      using sub[of "order_id (h a)"] lv1(2) by (cases "order_map lv2 (order_id (h a))") auto
    with p1 p2 lv1(1) Exec.hyps(1) have
      "level_orders lv = (a # popped) @ level_orders lv2
       \<and> (\<forall>i\<in>(\<lambda>a. order_id (h a)) ` set (a # popped). order_map lv2 i = None)"
      by (auto simp: ids)
    then show ?thesis by blast
  next
    case False
    with Exec.hyps(6) have "level_orders lv1 = level_orders lv" by simp
    with p1 p2 have
      "level_orders lv = popped @ level_orders lv2
       \<and> (\<forall>i\<in>(\<lambda>a. order_id (h a)) ` set popped. order_map lv2 i = None)"
      by (auto simp: ids)
    then show ?thesis by blast
  qed
next
  case (Skip h lv q a rest h2 lv2 ex)
  from Skip.IH obtain popped where
    p1: "rest = popped @ level_orders lv2" and
    p2: "\<forall>i\<in>(\<lambda>a. order_id (h a)) ` set popped. order_map lv2 i = None"
    by (auto simp: pop_front_def)
  from execute_quantity_suffix[OF Skip.hyps(5)]
  have sub: "\<And>i b. order_map lv2 i = Some b
      \<Longrightarrow> order_map (pop_front (order_id (h a)) rest lv) i = Some b" by blast
  have "order_map lv2 (order_id (h a)) = None"
    using sub[of "order_id (h a)"]
    by (cases "order_map lv2 (order_id (h a))") (auto simp: pop_front_def)
  with p1 p2 Skip.hyps(1) have
    "level_orders lv = (a # popped) @ level_orders lv2
     \<and> (\<forall>i\<in>(\<lambda>a. order_id (h a)) ` set (a # popped). order_map lv2 i = None)"
    by auto
  then show ?case by blast
qed


section \<open>The invariant of the book\<close>

text \<open>
  \<open>member_ok\<close>: an order held by the level \<open>lv\<close> at price \<open>p\<close> on side \<open>sd\<close> was
  allocated, satisfies \<open>resting_ok\<close>, has that side and price, and both the id index of
  the book and the table of the level send its id to it.
\<close>

definition member_ok ::
  "heap \<Rightarrow> (OrderId \<rightharpoonup> addr) \<Rightarrow> addr \<Rightarrow> Side \<Rightarrow> Price \<Rightarrow> PriceLevel \<Rightarrow> addr \<Rightarrow> bool" where
  "member_ok h idx n sd p lv a \<longleftrightarrow>
     a < n \<and> resting_ok (h a) \<and> side (h a) = sd \<and> price (h a) = p
     \<and> idx (order_id (h a)) = Some a \<and> order_map lv (order_id (h a)) = Some a"

definition level_ok ::
  "heap \<Rightarrow> (OrderId \<rightharpoonup> addr) \<Rightarrow> addr \<Rightarrow> Side \<Rightarrow> Price \<Rightarrow> PriceLevel \<Rightarrow> bool" where
  "level_ok h idx n sd p lv \<longleftrightarrow>
     level_price lv = p \<and> level_orders lv \<noteq> [] \<and> distinct (level_orders lv)
     \<and> total_quantity lv = (\<Sum>a\<leftarrow>level_orders lv. remaining_quantity (h a))
     \<and> (\<forall>a\<in>set (level_orders lv). member_ok h idx n sd p lv a)
     \<and> (\<forall>i a. order_map lv i = Some a \<longrightarrow> a \<in> set (level_orders lv) \<and> order_id (h a) = i)"

definition side_ok :: "Side \<Rightarrow> engine \<Rightarrow> bool" where
  "side_ok sd s \<longleftrightarrow>
     distinct (map fst (levels_of sd (book s)))
     \<and> (\<forall>e\<in>set (levels_of sd (book s)).
           level_ok (heap s) (orders (book s)) (next_addr s) sd (fst e) (snd e))
     \<and> total_of sd (book s) = (\<Sum>e\<leftarrow>levels_of sd (book s). total_quantity (snd e))"

definition book_inv :: "engine \<Rightarrow> bool" where
  "book_inv s \<longleftrightarrow>
     side_ok BUY s \<and> side_ok SELL s
     \<and> (\<forall>i a. orders (book s) i = Some a \<longrightarrow> a < next_addr s \<and> order_id (heap s a) = i)
     \<and> orders (book s) INVALID_ORDER_ID = None"

lemma book_inv_side: "book_inv s \<Longrightarrow> side_ok sd s"
  by (cases sd) (simp_all add: book_inv_def)

lemma book_invI:
  "(\<And>sd. side_ok sd s) \<Longrightarrow>
   (\<And>i a. orders (book s) i = Some a \<Longrightarrow> a < next_addr s \<and> order_id (heap s a) = i) \<Longrightarrow>
   orders (book s) INVALID_ORDER_ID = None \<Longrightarrow> book_inv s"
  by (simp add: book_inv_def)

lemma opposite_neq [simp]: "opposite sd \<noteq> sd" "sd \<noteq> opposite sd"
  by (cases sd; simp add: opposite_def)+

lemma opposite_opposite [simp]: "opposite (opposite sd) = sd"
  by (cases sd) (simp_all add: opposite_def)

lemma side_cases: "sd' = sd \<or> sd' = opposite sd"
  by (cases sd; cases sd') (simp_all add: opposite_def)

lemma sum_list_cong_set:
  "(\<And>a. a \<in> set xs \<Longrightarrow> f a = g a) \<Longrightarrow> (\<Sum>a\<leftarrow>xs. f a) = (\<Sum>a\<leftarrow>xs. (g a :: int))"
  by (induction xs) auto

lemma level_ok_heap_cong:
  assumes "\<And>a. a \<in> set (level_orders lv) \<Longrightarrow> h1 a = h a"
  shows "level_ok h1 idx n sd p lv = level_ok h idx n sd p lv"
proof -
  have "(\<Sum>a\<leftarrow>level_orders lv. remaining_quantity (h1 a))
        = (\<Sum>a\<leftarrow>level_orders lv. remaining_quantity (h a))"
    by (rule sum_list_cong_set) (simp add: assms)
  moreover have "\<And>a. a \<in> set (level_orders lv) \<Longrightarrow>
      member_ok h1 idx n sd p lv a = member_ok h idx n sd p lv a"
    by (simp add: member_ok_def assms)
  moreover have "(\<forall>i a. order_map lv i = Some a \<longrightarrow> a \<in> set (level_orders lv) \<and> order_id (h1 a) = i)
      = (\<forall>i a. order_map lv i = Some a \<longrightarrow> a \<in> set (level_orders lv) \<and> order_id (h a) = i)"
    using assms by metis
  ultimately show ?thesis by (simp add: level_ok_def)
qed

lemma level_ok_after_execute:
  assumes ok: "level_ok h idx n sd p lv"
    and ex: "execute_quantity h lv q = Some (h1, lv1, executed)"
    and ne: "level_orders lv1 \<noteq> []"
  shows "level_ok h1 idx n sd p lv1"
proof -
  from ok have dist: "distinct (level_orders lv)"
    and tot: "total_quantity lv = (\<Sum>a\<leftarrow>level_orders lv. remaining_quantity (h a))"
    and mem: "\<And>a. a \<in> set (level_orders lv) \<Longrightarrow> member_ok h idx n sd p lv a"
    and omap: "\<And>i a. order_map lv i = Some a \<Longrightarrow> a \<in> set (level_orders lv) \<and> order_id (h a) = i"
    and lp: "level_price lv = p"
    by (auto simp: level_ok_def)
  have rest: "\<forall>a\<in>set (level_orders lv). resting_ok (h a)"
    using mem by (simp add: member_ok_def)
  from execute_quantity_sum[OF ex] dist rest have
    sum: "(\<Sum>a\<leftarrow>level_orders lv1. remaining_quantity (h1 a))
          = (\<Sum>a\<leftarrow>level_orders lv. remaining_quantity (h a)) - sum_list (map snd executed)"
    and rest1: "\<forall>a\<in>set (level_orders lv1). resting_ok (h1 a)"
    by auto
  from execute_quantity_total[OF ex] have
    lp1: "level_price lv1 = level_price lv" and
    tot1: "total_quantity lv1 = total_quantity lv - sum_list (map snd executed)"
    by auto
  from execute_quantity_suffix[OF ex] obtain popped where
    suf: "level_orders lv = popped @ level_orders lv1" and
    sub: "\<And>i a. order_map lv1 i = Some a \<Longrightarrow> order_map lv i = Some a" and
    keep: "\<And>i. i \<notin> (\<lambda>a. order_id (h a)) ` set popped \<Longrightarrow> order_map lv1 i = order_map lv i"
    by blast
  from execute_quantity_popped[OF ex] obtain popped' where
    suf': "level_orders lv = popped' @ level_orders lv1" and
    gone': "\<forall>i\<in>(\<lambda>a. order_id (h a)) ` set popped'. order_map lv1 i = None"
    by blast
  from suf suf' have "popped' = popped" by simp
  with gone' have gone: "\<And>b. b \<in> set popped \<Longrightarrow> order_map lv1 (order_id (h b)) = None"
    by simp
  have st: "\<And>a. static (h1 a) = static (h a)"
    using execute_quantity_static[OF ex] by simp
  have ids: "\<And>a. order_id (h1 a) = order_id (h a)"
    and sides: "\<And>a. side (h1 a) = side (h a)"
    and prices: "\<And>a. price (h1 a) = price (h a)"
    using static_fields[OF st] by simp_all
  have sub1: "set (level_orders lv1) \<subseteq> set (level_orders lv)"
    using suf by auto
  have inj: "\<And>a b. a \<in> set (level_orders lv) \<Longrightarrow> b \<in> set (level_orders lv) \<Longrightarrow>
      order_id (h a) = order_id (h b) \<Longrightarrow> a = b"
  proof -
    fix a b assume "a \<in> set (level_orders lv)" "b \<in> set (level_orders lv)"
      "order_id (h a) = order_id (h b)"
    with mem[of a] mem[of b] show "a = b" by (simp add: member_ok_def)
  qed
  have m1: "member_ok h1 idx n sd p lv1 a" if a: "a \<in> set (level_orders lv1)" for a
  proof -
    from a sub1 have al: "a \<in> set (level_orders lv)" by auto
    have "order_id (h a) \<notin> (\<lambda>a. order_id (h a)) ` set popped"
    proof
      assume "order_id (h a) \<in> (\<lambda>a. order_id (h a)) ` set popped"
      then obtain b where b: "b \<in> set popped" "order_id (h a) = order_id (h b)" by auto
      with suf have "b \<in> set (level_orders lv)" by simp
      from inj[OF al this b(2)] have "a = b" .
      with b(1) a suf dist show False by auto
    qed
    from keep[OF this] mem[OF al] rest1 a show ?thesis
      by (simp add: member_ok_def ids sides prices)
  qed
  have o1: "a \<in> set (level_orders lv1) \<and> order_id (h1 a) = i" if "order_map lv1 i = Some a" for i a
  proof -
    from sub[OF that] omap have al: "a \<in> set (level_orders lv)" and i: "order_id (h a) = i"
      by auto
    have "a \<notin> set popped"
    proof
      assume "a \<in> set popped"
      from gone[OF this] i that show False by simp
    qed
    with al suf i show ?thesis by (auto simp: ids)
  qed
  from suf dist have "distinct (level_orders lv1)" by auto
  with ne lp lp1 tot tot1 sum m1 o1 show ?thesis
    unfolding level_ok_def by auto
qed

text \<open>
  What a walk over the side \<open>opp\<close> leaves alone: the id index, the allocator, the other
  side, the fields of \<open>static\<close> and the quantity of every order, and every order that was
  not on the side \<open>opp\<close>; and it adds no order to the side \<open>opp\<close>.
\<close>

definition walk_frame :: "Side \<Rightarrow> engine \<Rightarrow> engine \<Rightarrow> bool" where
  "walk_frame opp s s1 \<longleftrightarrow>
     orders (book s1) = orders (book s) \<and> next_addr s1 = next_addr s
     \<and> book_symbol (book s1) = book_symbol (book s)
     \<and> levels_of (opposite opp) (book s1) = levels_of (opposite opp) (book s)
     \<and> total_of (opposite opp) (book s1) = total_of (opposite opp) (book s)
     \<and> (\<forall>a. static (heap s1 a) = static (heap s a) \<and> quantity (heap s1 a) = quantity (heap s a))
     \<and> (\<forall>a. a \<notin> set (book_addrs opp s) \<longrightarrow> heap s1 a = heap s a)
     \<and> set (book_addrs opp s1) \<subseteq> set (book_addrs opp s)"

lemma walk_frame_refl: "walk_frame opp s s"
  by (simp add: walk_frame_def)

lemma walk_frame_trans:
  "walk_frame opp s s1 \<Longrightarrow> walk_frame opp s1 s2 \<Longrightarrow> walk_frame opp s s2"
  unfolding walk_frame_def by (auto simp: subset_iff)

lemma book_symbol_set_levels [simp]: "book_symbol (set_levels sd ls b) = book_symbol b"
  by (cases sd) (simp_all add: set_levels_def)

lemma book_symbol_set_total [simp]: "book_symbol (set_total sd q b) = book_symbol b"
  by (cases sd) (simp_all add: set_total_def)

lemma side_ok_level:
  "side_ok sd s \<Longrightarrow> (p, lv) \<in> set (levels_of sd (book s)) \<Longrightarrow>
   level_ok (heap s) (orders (book s)) (next_addr s) sd p lv"
  by (auto simp: side_ok_def)

lemma level_ok_member:
  "level_ok h idx n sd p lv \<Longrightarrow> a \<in> set (level_orders lv) \<Longrightarrow> member_ok h idx n sd p lv a"
  by (simp add: level_ok_def)

lemma match_level_inv:
  assumes inv: "book_inv s"
    and lvs: "levels_of opp (book s) = (p, lv) # rest"
  shows "\<exists>s1 q1 ms1. match_level opp t p lv rest s q ms = Some (s1, q1, ms1)
           \<and> book_inv s1 \<and> walk_frame opp s s1 \<and> q1 \<le> q \<and> (0 < q \<longrightarrow> 0 \<le> q1)"
proof -
  let ?h = "heap s" and ?idx = "orders (book s)" and ?n = "next_addr s"
  have so: "side_ok opp s" and so': "side_ok (opposite opp) s"
    using inv by (rule book_inv_side)+
  from so lvs have keys: "p \<notin> fst ` set rest" "distinct (map fst rest)"
    and lok: "level_ok ?h ?idx ?n opp p lv"
    and rok: "\<And>e. e \<in> set rest \<Longrightarrow> level_ok ?h ?idx ?n opp (fst e) (snd e)"
    and tot: "total_of opp (book s) = total_quantity lv + (\<Sum>e\<leftarrow>rest. total_quantity (snd e))"
    by (auto simp: side_ok_def)
  have mem: "\<And>a. a \<in> set (level_orders lv) \<Longrightarrow> member_ok ?h ?idx ?n opp p lv a"
    using lok by (simp add: level_ok_def)
  have "\<forall>a\<in>set (level_orders lv). executed_quantity (?h a) \<le> quantity (?h a)"
    using mem by (simp add: member_ok_def resting_ok_def)
  from execute_quantity_returns[OF this, of q] obtain h1 lv1 ex where
    ex: "execute_quantity ?h lv q = Some (h1, lv1, ex)"
    by (metis prod_cases3)
  define s1 where "s1 = s\<lparr> heap := h1,
      book := set_levels opp (if level_is_empty lv1 then rest else (p, lv1) # rest)
                (set_total opp (total_of opp (book s) - sum_list (map snd ex)) (book s)) \<rparr>"
  have ml: "match_level opp t p lv rest s q ms
      = Some (s1, q - sum_list (map snd ex),
              ms @ map (\<lambda>(maker, exec_qty). create_match h1 maker t exec_qty) ex)"
    unfolding match_level_Some s1_def using ex by simp
  have frame: "\<And>a. a \<notin> set (level_orders lv) \<Longrightarrow> h1 a = ?h a"
    using execute_quantity_frame[OF ex] by simp
  have st: "\<And>a. static (h1 a) = static (?h a) \<and> quantity (h1 a) = quantity (?h a)"
    using execute_quantity_static[OF ex] by simp
  have ids: "\<And>a. order_id (h1 a) = order_id (?h a)"
    using static_fields st by blast
  from execute_quantity_suffix[OF ex] have sub1: "set (level_orders lv1) \<subseteq> set (level_orders lv)"
    by auto
  from lok have dist: "distinct (level_orders lv)"
    and restok: "\<forall>a\<in>set (level_orders lv). resting_ok (?h a)"
    and ltot: "total_quantity lv = (\<Sum>a\<leftarrow>level_orders lv. remaining_quantity (?h a))"
    by (auto simp: level_ok_def member_ok_def)
  from execute_quantity_sum[OF ex] dist restok ltot have
    sum1: "(\<Sum>a\<leftarrow>level_orders lv1. remaining_quantity (h1 a))
             = total_quantity lv - sum_list (map snd ex)"
    by simp
  from execute_quantity_total[OF ex] have
    tot1: "total_quantity lv1 = total_quantity lv - sum_list (map snd ex)" by simp
  have h1s: "heap s1 = h1" and idx1: "orders (book s1) = ?idx" and n1: "next_addr s1 = ?n"
    and lv_opp: "levels_of opp (book s1) = (if level_is_empty lv1 then rest else (p, lv1) # rest)"
    and lv_own: "levels_of (opposite opp) (book s1) = levels_of (opposite opp) (book s)"
    and tot_opp: "total_of opp (book s1) = total_of opp (book s) - sum_list (map snd ex)"
    and tot_own: "total_of (opposite opp) (book s1) = total_of (opposite opp) (book s)"
    by (simp_all add: s1_def)
  \<comment> \<open>the levels that were not executed hold none of the executed orders\<close>
  have rest_same: "level_ok h1 ?idx ?n opp (fst e) (snd e)" if e: "e \<in> set rest" for e
  proof -
    have "h1 a = ?h a" if a: "a \<in> set (level_orders (snd e))" for a
    proof (rule frame, rule notI)
      assume "a \<in> set (level_orders lv)"
      from mem[OF this] have "price (?h a) = p" by (simp add: member_ok_def)
      moreover from level_ok_member[OF rok[OF e] a] have "price (?h a) = fst e"
        by (simp add: member_ok_def)
      ultimately show False using keys(1) e by auto
    qed
    from level_ok_heap_cong[of "snd e" h1 ?h, OF this] rok[OF e] show ?thesis by simp
  qed
  have own_same: "level_ok h1 ?idx ?n (opposite opp) (fst e) (snd e)"
    if e: "e \<in> set (levels_of (opposite opp) (book s))" for e
  proof -
    have eok: "level_ok ?h ?idx ?n (opposite opp) (fst e) (snd e)"
      using so' e by (simp add: side_ok_def)
    have "h1 a = ?h a" if a: "a \<in> set (level_orders (snd e))" for a
    proof (rule frame, rule notI)
      assume "a \<in> set (level_orders lv)"
      from mem[OF this] have "side (?h a) = opp" by (simp add: member_ok_def)
      moreover from level_ok_member[OF eok a] have "side (?h a) = opposite opp"
        by (simp add: member_ok_def)
      ultimately show False by simp
    qed
    from level_ok_heap_cong[of "snd e" h1 ?h, OF this] eok show ?thesis by simp
  qed
  have side_opp: "side_ok opp s1"
  proof (cases "level_orders lv1 = []")
    case True
    with sum1 have "total_quantity lv - sum_list (map snd ex) = 0" by simp
    with True tot keys rest_same show ?thesis
      by (simp add: side_ok_def h1s idx1 n1 lv_opp tot_opp level_is_empty_def)
  next
    case False
    from level_ok_after_execute[OF lok ex False]
    have "level_ok h1 ?idx ?n opp p lv1" .
    with False tot tot1 keys rest_same show ?thesis
      by (auto simp: side_ok_def h1s idx1 n1 lv_opp tot_opp level_is_empty_def)
  qed
  have side_own: "side_ok (opposite opp) s1"
    using so' own_same by (simp add: side_ok_def h1s idx1 n1 lv_own tot_own)
  have sides: "side_ok sd s1" for sd
    using side_cases[of sd opp] side_opp side_own by auto
  have inv1: "book_inv s1"
  proof (rule book_invI)
    show "\<And>sd. side_ok sd s1" by (rule sides)
    show "\<And>i a. orders (book s1) i = Some a \<Longrightarrow> a < next_addr s1 \<and> order_id (heap s1 a) = i"
      using inv by (simp add: book_inv_def h1s idx1 n1 ids)
    show "orders (book s1) INVALID_ORDER_ID = None"
      using inv by (simp add: book_inv_def idx1)
  qed
  have addrs: "set (book_addrs opp s1) \<subseteq> set (book_addrs opp s)"
    using sub1 by (auto simp: book_addrs_def lv_opp lvs split: if_splits)
  have "\<And>a. a \<notin> set (book_addrs opp s) \<Longrightarrow> h1 a = ?h a"
    using frame by (auto simp: book_addrs_def lvs)
  with addrs st have wf: "walk_frame opp s s1"
    by (simp add: walk_frame_def h1s idx1 n1 lv_own tot_own s1_def)
  from execute_quantity_bound[OF ex] have "q - sum_list (map snd ex) \<le> q"
    "0 < q \<longrightarrow> 0 \<le> q - sum_list (map snd ex)" by auto
  with ml inv1 wf show ?thesis by blast
qed

lemma match_walk_inv:
  "book_inv s \<Longrightarrow>
   \<exists>s1 q1 ms1. match_walk sd limit t s q ms = Some (s1, q1, ms1)
      \<and> book_inv s1 \<and> walk_frame (opposite sd) s s1
      \<and> q1 \<le> q \<and> (0 < q \<longrightarrow> 0 \<le> q1) \<and> (\<not> 0 < q \<longrightarrow> q1 = q)"
proof (induction sd limit t s q ms rule: match_walk.induct)
  case (1 sd limit t s q ms)
  note inv = "1.prems"
  show ?case
  proof (cases "0 < q")
    case False
    then have "match_walk sd limit t s q ms = Some (s, q, ms)"
      by (simp add: match_walk.simps)
    with inv False show ?thesis by (simp add: walk_frame_refl)
  next
    case True
    then have neg: "\<not> \<not> 0 < q" by simp
    show ?thesis
    proof (cases "levels_of (opposite sd) (book s)")
      case Nil
      with True have "match_walk sd limit t s q ms = Some (s, q, ms)"
        by (simp add: match_walk.simps)
      with inv True show ?thesis by (simp add: walk_frame_refl)
    next
      case (Cons e rest)
      obtain p lv where e: "e = (p, lv)" by (cases e)
      with Cons have lvs: "levels_of (opposite sd) (book s) = (p, lv) # rest" by simp
      show ?thesis
      proof (cases "beyond_limit sd p limit")
        case True
        with \<open>0 < q\<close> lvs have "match_walk sd limit t s q ms = Some (s, q, ms)"
          by (simp add: match_walk.simps)
        with inv \<open>0 < q\<close> show ?thesis by (simp add: walk_frame_refl)
      next
        case nb: False
        from match_level_inv[OF inv lvs, of t q ms] obtain s1 q1 ms1 where
          ml: "match_level (opposite sd) t p lv rest s q ms = Some (s1, q1, ms1)" and
          inv1: "book_inv s1" and wf1: "walk_frame (opposite sd) s s1" and
          q1: "q1 \<le> q" "0 \<le> q1"
          using \<open>0 < q\<close> by blast
        show ?thesis
        proof (cases "q1 \<le> 0 \<or> (time_in_force (heap s1 t) = FOK \<and> q1 < quantity (heap s1 t))")
          case stop: True
          with \<open>0 < q\<close> lvs nb ml have "match_walk sd limit t s q ms = Some (s1, q1, ms1)"
            by (subst match_walk.simps) simp
          with inv1 wf1 q1 \<open>0 < q\<close> show ?thesis by simp
        next
          case nstop: False
          from "1.IH"[OF neg lvs refl nb ml refl refl nstop inv1] obtain s2 q2 ms2 where
            mw: "match_walk sd limit t s1 q1 ms1 = Some (s2, q2, ms2)" and
            inv2: "book_inv s2" and wf2: "walk_frame (opposite sd) s1 s2" and
            q2: "q2 \<le> q1" "0 < q1 \<longrightarrow> 0 \<le> q2"
            by blast
          from \<open>0 < q\<close> lvs nb ml nstop mw
          have "match_walk sd limit t s q ms = Some (s2, q2, ms2)"
            by (subst match_walk.simps) auto
          moreover from nstop have "0 < q1" by simp
          ultimately show ?thesis
            using inv2 walk_frame_trans[OF wf1 wf2] q1 q2 \<open>0 < q\<close> by simp
        qed
      qed
    qed
  qed
qed

section \<open>The maps of levels\<close>

lemma levels_update_keys [simp]: "map fst (levels_update p f ls) = map fst ls"
  by (induction ls) (auto simp: levels_update_def)

lemma levels_update_set:
  "distinct (map fst ls) \<Longrightarrow> map_of ls p = Some lw \<Longrightarrow>
   set (levels_update p f ls) = insert (p, f lw) (set ls - {(p, lw)})"
proof (induction ls)
  case Nil
  then show ?case by simp
next
  case (Cons e ls)
  obtain q l where e: "e = (q, l)" by (cases e)
  show ?case
  proof (cases "q = p")
    case True
    with Cons.prems e have lw: "l = lw" and np: "p \<notin> fst ` set ls" by auto
    have "levels_update p f ls = ls"
      using np by (induction ls) (auto simp: levels_update_def)
    moreover have "(p, lw) \<notin> set ls" using np by force
    ultimately show ?thesis using e True lw by (auto simp: levels_update_def)
  next
    case False
    with Cons.prems e have "map_of ls p = Some lw" "distinct (map fst ls)" by auto
    from Cons.IH[OF this(2,1)] e False show ?thesis
      by (auto simp: levels_update_def)
  qed
qed

lemma levels_update_sum:
  "distinct (map fst ls) \<Longrightarrow> map_of ls p = Some lw \<Longrightarrow>
   (\<Sum>e\<leftarrow>levels_update p f ls. total_quantity (snd e))
     = (\<Sum>e\<leftarrow>ls. total_quantity (snd e)) - total_quantity lw + total_quantity (f lw)"
proof (induction ls)
  case Nil
  then show ?case by simp
next
  case (Cons e ls)
  obtain q l where e: "e = (q, l)" by (cases e)
  show ?case
  proof (cases "q = p")
    case True
    with Cons.prems e have lw: "l = lw" and np: "p \<notin> fst ` set ls" by auto
    have "levels_update p f ls = ls"
      using np by (induction ls) (auto simp: levels_update_def)
    then show ?thesis using e True lw by (simp add: levels_update_def)
  next
    case False
    with Cons.prems e have "map_of ls p = Some lw" "distinct (map fst ls)" by auto
    from Cons.IH[OF this(2,1)] e False show ?thesis
      by (simp add: levels_update_def)
  qed
qed

lemma levels_update_map_of:
  "map_of (levels_update p f ls) q
     = (if q = p then map_option f (map_of ls p) else map_of ls q)"
  by (induction ls) (auto simp: levels_update_def)

lemma levels_insert_set:
  "p \<notin> fst ` set ls \<Longrightarrow> set (levels_insert sd p v ls) = insert (p, v) (set ls)"
  by (induction ls) (auto split: if_splits)

lemma levels_insert_keys:
  "p \<notin> fst ` set ls \<Longrightarrow> distinct (map fst ls) \<Longrightarrow> distinct (map fst (levels_insert sd p v ls))"
proof (induction ls)
  case Nil
  then show ?case by simp
next
  case (Cons e ls)
  obtain q l where e: "e = (q, l)" by (cases e)
  from Cons.prems e have np: "p \<notin> fst ` set ls" "p \<noteq> q" "distinct (map fst ls)"
    "q \<notin> fst ` set ls" by auto
  have "fst ` set (levels_insert sd p v ls) = insert p (fst ` set ls)"
    using levels_insert_set[OF np(1)] by simp
  with Cons.IH[OF np(1,3)] np e show ?case by auto
qed

lemma levels_insert_sum:
  "p \<notin> fst ` set ls \<Longrightarrow>
   (\<Sum>e\<leftarrow>levels_insert sd p v ls. total_quantity (snd e))
     = total_quantity v + (\<Sum>e\<leftarrow>ls. total_quantity (snd e))"
  by (induction ls) (auto split: if_splits)

lemma levels_insert_map_of:
  "p \<notin> fst ` set ls \<Longrightarrow> map_of (levels_insert sd p v ls) p = Some v"
  by (induction ls) (auto split: if_splits)

lemma levels_erase_set:
  "distinct (map fst ls) \<Longrightarrow> map_of ls p = Some lw \<Longrightarrow>
   set (levels_erase p ls) = set ls - {(p, lw)}"
proof -
  assume d: "distinct (map fst ls)" and m: "map_of ls p = Some lw"
  have "\<And>l. (p, l) \<in> set ls \<Longrightarrow> l = lw"
    using d m by (metis map_of_is_SomeI option.inject)
  then show ?thesis by (auto simp: levels_erase_def)
qed

lemma levels_erase_keys:
  "distinct (map fst ls) \<Longrightarrow> distinct (map fst (levels_erase p ls))"
  unfolding levels_erase_def by (induction ls) auto

lemma levels_erase_sum:
  "distinct (map fst ls) \<Longrightarrow> map_of ls p = Some lw \<Longrightarrow>
   (\<Sum>e\<leftarrow>levels_erase p ls. total_quantity (snd e))
     = (\<Sum>e\<leftarrow>ls. total_quantity (snd e)) - total_quantity lw"
proof (induction ls)
  case Nil
  then show ?case by simp
next
  case (Cons e ls)
  obtain q l where e: "e = (q, l)" by (cases e)
  show ?case
  proof (cases "q = p")
    case True
    with Cons.prems e have lw: "l = lw" and np: "p \<notin> fst ` set ls" by auto
    have "levels_erase p ls = ls"
      using np unfolding levels_erase_def by (induction ls) auto
    then show ?thesis using e True lw by (simp add: levels_erase_def)
  next
    case False
    with Cons.prems e have "map_of ls p = Some lw" "distinct (map fst ls)" by auto
    from Cons.IH[OF this(2,1)] e False show ?thesis
      by (simp add: levels_erase_def)
  qed
qed

lemma map_of_level:
  "distinct (map fst ls) \<Longrightarrow> (p, lv) \<in> set ls \<Longrightarrow> map_of ls p = Some lv"
  by simp

lemma erase_node_distinct:
  assumes "distinct xs"
  shows "erase_node a xs = remove1 a xs"
proof -
  have "erase_node a xs = rev (removeAll a (rev xs))"
    using assms by (simp add: erase_node_def distinct_remove1_removeAll)
  also have "\<dots> = removeAll a xs"
    by (simp add: removeAll_filter_not_eq rev_filter)
  also have "\<dots> = remove1 a xs"
    using assms by (simp add: distinct_remove1_removeAll)
  finally show ?thesis .
qed

lemma sum_list_remove1:
  "a \<in> set xs \<Longrightarrow> (\<Sum>x\<leftarrow>remove1 a xs. (f x :: int)) = (\<Sum>x\<leftarrow>xs. f x) - f a"
  by (induction xs) auto



section \<open>Orders on the book and orders off the book\<close>

lemma ex_side: "(\<exists>sd. P sd) \<longleftrightarrow> P BUY \<or> P SELL"
proof
  assume "\<exists>sd. P sd"
  then obtain sd where "P sd" ..
  then show "P BUY \<or> P SELL" by (cases sd) simp_all
qed auto

lemma in_book_addrs:
  "a \<in> set (book_addrs sd s) \<longleftrightarrow>
   (\<exists>e\<in>set (levels_of sd (book s)). a \<in> set (level_orders (snd e)))"
  by (auto simp: book_addrs_def)

lemma in_all_addrs:
  "a \<in> set (all_addrs s) \<longleftrightarrow>
   (\<exists>sd. \<exists>e\<in>set (levels_of sd (book s)). a \<in> set (level_orders (snd e)))"
proof -
  have "(\<exists>sd. a \<in> set (book_addrs sd s))
        \<longleftrightarrow> a \<in> set (book_addrs BUY s) \<or> a \<in> set (book_addrs SELL s)"
    by (rule ex_side)
  then show ?thesis by (simp add: all_addrs_def in_book_addrs)
qed

lemma is_resting_iff:
  "is_resting i s \<longleftrightarrow> (\<exists>a\<in>set (all_addrs s). order_id (heap s a) = i)"
  by (simp add: is_resting_def list_ex_iff)

lemma member_ok_of_book:
  assumes "book_inv s" "e \<in> set (levels_of sd (book s))" "a \<in> set (level_orders (snd e))"
  shows "member_ok (heap s) (orders (book s)) (next_addr s) sd (fst e) (snd e) a"
  using assms book_inv_side[of s sd] by (auto simp: side_ok_def level_ok_def)

text \<open>An order on the book is in one level only: the one of its side and price.\<close>

lemma member_level:
  assumes inv: "book_inv s" and e: "e \<in> set (levels_of sd (book s))"
    and a: "a \<in> set (level_orders (snd e))"
  shows "side (heap s a) = sd \<and> fst e = price (heap s a)
         \<and> map_of (levels_of sd (book s)) (price (heap s a)) = Some (snd e)"
proof -
  from member_ok_of_book[OF inv e a] have m: "side (heap s a) = sd" "price (heap s a) = fst e"
    by (simp_all add: member_ok_def)
  have "distinct (map fst (levels_of sd (book s)))"
    using book_inv_side[OF inv, of sd] by (simp add: side_ok_def)
  from map_of_level[OF this, of "fst e" "snd e"] e m show ?thesis by simp
qed


lemma level_ok_idx_cong:
  assumes "\<And>a. a \<in> set (level_orders lv) \<Longrightarrow> idx1 (order_id (h a)) = idx (order_id (h a))"
  shows "level_ok h idx1 n sd p lv = level_ok h idx n sd p lv"
proof -
  have "\<And>a. a \<in> set (level_orders lv) \<Longrightarrow>
      member_ok h idx1 n sd p lv a = member_ok h idx n sd p lv a"
    by (simp add: member_ok_def assms)
  then show ?thesis by (simp add: level_ok_def)
qed

lemma member_ok_next_mono:
  "member_ok h idx n sd p lv a \<Longrightarrow> n \<le> n1 \<Longrightarrow> member_ok h idx n1 sd p lv a"
  by (simp add: member_ok_def)

lemma level_ok_next_mono:
  "level_ok h idx n sd p lv \<Longrightarrow> n \<le> n1 \<Longrightarrow> level_ok h idx n1 sd p lv"
  unfolding level_ok_def using member_ok_next_mono by blast

text \<open>Writing to an order that is not on the book, without changing its id.\<close>

lemma book_inv_heap_upd:
  assumes inv: "book_inv s" and a: "a \<notin> set (all_addrs s)"
    and i: "order_id ord = order_id (heap s a)"
  shows "book_inv (s\<lparr>heap := (heap s)(a := ord)\<rparr>)"
proof (rule book_invI)
  fix sd
  have so: "side_ok sd s" using inv by (rule book_inv_side)
  have "level_ok ((heap s)(a := ord)) (orders (book s)) (next_addr s) sd (fst e) (snd e)"
    if e: "e \<in> set (levels_of sd (book s))" for e
  proof -
    have "((heap s)(a := ord)) b = heap s b" if "b \<in> set (level_orders (snd e))" for b
      using a that e unfolding in_all_addrs by auto
    from level_ok_heap_cong[of "snd e" "(heap s)(a := ord)" "heap s", OF this] so e
    show ?thesis by (simp add: side_ok_def)
  qed
  with so show "side_ok sd (s\<lparr>heap := (heap s)(a := ord)\<rparr>)"
    by (simp add: side_ok_def)
next
  fix j b assume "orders (book (s\<lparr>heap := (heap s)(a := ord)\<rparr>)) j = Some b"
  with inv i show "b < next_addr (s\<lparr>heap := (heap s)(a := ord)\<rparr>)
      \<and> order_id (heap (s\<lparr>heap := (heap s)(a := ord)\<rparr>) b) = j"
    by (auto simp: book_inv_def)
next
  show "orders (book (s\<lparr>heap := (heap s)(a := ord)\<rparr>)) INVALID_ORDER_ID = None"
    using inv by (simp add: book_inv_def)
qed

lemma all_addrs_heap_upd [simp]: "all_addrs (s\<lparr>heap := h\<rparr>) = all_addrs s"
  by (simp add: all_addrs_def book_addrs_def)

section \<open>Resting an order\<close>

lemma levels_of_orders_update [simp]: "levels_of sd (b\<lparr>orders := m\<rparr>) = levels_of sd b"
  by (cases sd) (simp_all add: levels_of_def)

lemma total_of_orders_update [simp]: "total_of sd (b\<lparr>orders := m\<rparr>) = total_of sd b"
  by (cases sd) (simp_all add: total_of_def)

lemma add_limit_order_to_book_acts:
  assumes "order_type (heap s t) = LIMIT" "\<not> is_filled (heap s t)"
  shows "heap (add_limit_order_to_book t s) = heap s"
    and "next_addr (add_limit_order_to_book t s) = next_addr s"
    and "orders (book (add_limit_order_to_book t s))
           = (orders (book s))(order_id (heap s t) \<mapsto> t)"
    and "levels_of (side (heap s t)) (book (add_limit_order_to_book t s))
           = levels_update (price (heap s t)) (level_add_order (heap s) t)
               (case map_of (levels_of (side (heap s t)) (book s)) (price (heap s t)) of
                  None \<Rightarrow> levels_insert (side (heap s t)) (price (heap s t))
                            (new_PriceLevel (price (heap s t)))
                            (levels_of (side (heap s t)) (book s))
                | Some lw \<Rightarrow> levels_of (side (heap s t)) (book s))"
    and "levels_of (opposite (side (heap s t))) (book (add_limit_order_to_book t s))
           = levels_of (opposite (side (heap s t))) (book s)"
    and "total_of (side (heap s t)) (book (add_limit_order_to_book t s))
           = total_of (side (heap s t)) (book s) + remaining_quantity (heap s t)"
    and "total_of (opposite (side (heap s t))) (book (add_limit_order_to_book t s))
           = total_of (opposite (side (heap s t))) (book s)"
  using assms by (simp_all add: add_limit_order_to_book_def Let_def split: option.splits)

lemma in_all_addrsI:
  "e \<in> set (levels_of sd (book s)) \<Longrightarrow> a \<in> set (level_orders (snd e)) \<Longrightarrow>
   a \<in> set (all_addrs s)"
  by (subst in_all_addrs) blast

lemma not_resting_member:
  assumes "\<not> is_resting i s" "e \<in> set (levels_of sd (book s))" "a \<in> set (level_orders (snd e))"
  shows "order_id (heap s a) \<noteq> i"
  using in_all_addrsI[OF assms(2,3)] assms(1) by (auto simp: is_resting_iff)

lemma not_in_book_member:
  assumes "t \<notin> set (all_addrs s)" "e \<in> set (levels_of sd (book s))"
  shows "t \<notin> set (level_orders (snd e))"
  using in_all_addrsI[OF assms(2)] assms(1) by blast

lemma level_ok_add:
  assumes price: "level_price lw = p"
    and dist: "distinct (level_orders lw)"
    and tot: "total_quantity lw = (\<Sum>a\<leftarrow>level_orders lw. remaining_quantity (h a))"
    and mem: "\<And>a. a \<in> set (level_orders lw) \<Longrightarrow> member_ok h idx n sd p lw a"
    and omap: "\<And>j a. order_map lw j = Some a \<Longrightarrow> a \<in> set (level_orders lw) \<and> order_id (h a) = j"
    and fresh: "t \<notin> set (level_orders lw)"
    and ids: "\<And>a. a \<in> set (level_orders lw) \<Longrightarrow> order_id (h a) \<noteq> order_id (h t)"
    and t: "t < n" "resting_ok (h t)" "side (h t) = sd" "price (h t) = p"
  shows "level_ok h (idx(order_id (h t) \<mapsto> t)) n sd p (level_add_order h t lw)"
proof -
  let ?lv = "level_add_order h t lw"
  let ?idx = "idx(order_id (h t) \<mapsto> t)"
  have lv: "level_price ?lv = p" "level_orders ?lv = level_orders lw @ [t]"
    "order_map ?lv = (order_map lw)(order_id (h t) \<mapsto> t)"
    "total_quantity ?lv = total_quantity lw + remaining_quantity (h t)"
    using price t(4) by (simp_all add: level_add_order_def)
  have m: "member_ok h ?idx n sd p ?lv a" if a: "a \<in> set (level_orders ?lv)" for a
  proof (cases "a = t")
    case True
    with t lv show ?thesis by (simp add: member_ok_def)
  next
    case False
    with a lv have al: "a \<in> set (level_orders lw)" by simp
    from mem[OF al] ids[OF al] lv show ?thesis by (simp add: member_ok_def)
  qed
  have o: "a \<in> set (level_orders ?lv) \<and> order_id (h a) = j" if "order_map ?lv j = Some a" for j a
  proof (cases "j = order_id (h t)")
    case True
    with that have at: "a = t" by (simp add: lv(3))
    show ?thesis unfolding at using True by (simp add: lv(2))
  next
    case False
    with that have "order_map lw j = Some a" by (simp add: lv(3))
    from omap[OF this] show ?thesis by (simp add: lv(2))
  qed
  show ?thesis
    unfolding level_ok_def
  proof (intro conjI ballI allI impI)
    show "level_price ?lv = p" by (fact lv(1))
    show "level_orders ?lv \<noteq> []" by (simp add: lv(2))
    show "distinct (level_orders ?lv)" using dist fresh by (simp add: lv(2))
    show "total_quantity ?lv = (\<Sum>a\<leftarrow>level_orders ?lv. remaining_quantity (h a))"
      by (simp add: lv(2,4) tot)
    show "\<And>a. a \<in> set (level_orders ?lv) \<Longrightarrow> member_ok h ?idx n sd p ?lv a" by (rule m)
    show "\<And>j a. order_map ?lv j = Some a \<Longrightarrow> a \<in> set (level_orders ?lv)"
      using o by blast
    show "\<And>j a. order_map ?lv j = Some a \<Longrightarrow> order_id (h a) = j"
      using o by blast
  qed
qed

lemma add_limit_order_to_book_inv:
  assumes inv: "book_inv s"
    and nb: "t \<notin> set (all_addrs s)"
    and lt: "t < next_addr s"
    and rok: "resting_ok (heap s t)"
    and id0: "order_id (heap s t) \<noteq> INVALID_ORDER_ID"
    and nr: "\<not> is_resting (order_id (heap s t)) s"
  shows "book_inv (add_limit_order_to_book t s)"
proof (cases "is_filled (heap s t)")
  case True
  then show ?thesis using inv by (simp add: add_limit_order_to_book_def)
next
  case False
  let ?s1 = "add_limit_order_to_book t s"
  let ?h = "heap s" and ?idx = "orders (book s)" and ?n = "next_addr s"
  let ?i = "order_id (heap s t)" and ?sd = "side (heap s t)" and ?p = "price (heap s t)"
  let ?idx1 = "?idx(?i \<mapsto> t)"
  let ?ls = "levels_of ?sd (book s)"
  from rok have ty: "order_type (heap s t) = LIMIT" by (simp add: resting_ok_def)
  note acts = add_limit_order_to_book_acts[OF ty False]
  have other: "level_ok ?h ?idx1 ?n sd (fst e) (snd e)"
    if e: "e \<in> set (levels_of sd (book s))" for sd e
  proof -
    have "level_ok ?h ?idx ?n sd (fst e) (snd e)"
      using book_inv_side[OF inv, of sd] e by (simp add: side_ok_def)
    moreover have "?idx1 (order_id (?h a)) = ?idx (order_id (?h a))"
      if "a \<in> set (level_orders (snd e))" for a
      using not_resting_member[OF nr e that] by simp
    ultimately show ?thesis using level_ok_idx_cong[of "snd e" ?idx1 ?h ?idx] by simp
  qed
  have so: "side_ok ?sd s" and so': "side_ok (opposite ?sd) s"
    using inv by (rule book_inv_side)+
  from so have dk: "distinct (map fst ?ls)"
    and stot: "total_of ?sd (book s) = (\<Sum>e\<leftarrow>?ls. total_quantity (snd e))"
    by (simp_all add: side_ok_def)
  have side_own: "side_ok ?sd ?s1"
  proof (cases "map_of ?ls ?p")
    case None
    then have np: "?p \<notin> fst ` set ?ls" by (simp add: map_of_eq_None_iff)
    let ?lsn = "levels_insert ?sd ?p (new_PriceLevel ?p) ?ls"
    have l1: "levels_of ?sd (book ?s1) = levels_update ?p (level_add_order ?h t) ?lsn"
      by (simp only: acts(4) None option.case)
    have dk0: "distinct (map fst ?lsn)" by (rule levels_insert_keys[OF np dk])
    have m0: "map_of ?lsn ?p = Some (new_PriceLevel ?p)" by (rule levels_insert_map_of[OF np])
    have "(?p, new_PriceLevel ?p) \<notin> set ?ls" using np by force
    then have "set ?lsn - {(?p, new_PriceLevel ?p)} = set ?ls"
      using levels_insert_set[OF np, of ?sd "new_PriceLevel ?p"] by auto
    then have set1: "set (levels_of ?sd (book ?s1))
        = insert (?p, level_add_order ?h t (new_PriceLevel ?p)) (set ?ls)"
      using levels_update_set[OF dk0 m0, of "level_add_order ?h t"] l1 by simp
    have sum1: "(\<Sum>e\<leftarrow>levels_of ?sd (book ?s1). total_quantity (snd e))
        = (\<Sum>e\<leftarrow>?ls. total_quantity (snd e)) + remaining_quantity (?h t)"
      using levels_update_sum[OF dk0 m0, of "level_add_order ?h t"] levels_insert_sum[OF np, of ?sd]
        l1 by (simp add: new_PriceLevel_def level_add_order_def)
    have new_ok: "level_ok ?h ?idx1 ?n ?sd ?p (level_add_order ?h t (new_PriceLevel ?p))"
      by (rule level_ok_add) (use lt rok in \<open>simp_all add: new_PriceLevel_def\<close>)
    have dk1: "distinct (map fst (levels_of ?sd (book ?s1)))" using l1 dk0 by simp
    have lev: "level_ok ?h ?idx1 ?n ?sd (fst e) (snd e)"
      if "e \<in> set (levels_of ?sd (book ?s1))" for e
    proof -
      from that set1 consider "e = (?p, level_add_order ?h t (new_PriceLevel ?p))" | "e \<in> set ?ls" by auto
      then show ?thesis
      proof cases
        case 1
        with new_ok show ?thesis by simp
      next
        case 2
        then show ?thesis by (rule other)
      qed
    qed
    have tot1: "total_of ?sd (book ?s1) = (\<Sum>e\<leftarrow>levels_of ?sd (book ?s1). total_quantity (snd e))"
      using sum1 stot acts(6) by simp
    show ?thesis
      unfolding side_ok_def acts(1,2,3) using dk1 lev tot1 by blast
  next
    case (Some lw)
    then have mem_lw: "(?p, lw) \<in> set ?ls" by (rule map_of_SomeD)
    have l1: "levels_of ?sd (book ?s1) = levels_update ?p (level_add_order ?h t) ?ls"
      by (simp only: acts(4) Some option.case)
    have set1: "set (levels_of ?sd (book ?s1))
        = insert (?p, level_add_order ?h t lw) (set ?ls - {(?p, lw)})"
      using levels_update_set[OF dk Some] l1 by simp
    have lwok: "level_ok ?h ?idx ?n ?sd ?p lw"
      using so mem_lw by (auto simp: side_ok_def)
    then have sum1: "(\<Sum>e\<leftarrow>levels_of ?sd (book ?s1). total_quantity (snd e))
        = (\<Sum>e\<leftarrow>?ls. total_quantity (snd e)) + remaining_quantity (?h t)"
      using levels_update_sum[OF dk Some, of "level_add_order ?h t"] l1
      by (simp add: level_add_order_def level_ok_def)
    have new_ok: "level_ok ?h ?idx1 ?n ?sd ?p (level_add_order ?h t lw)"
    proof (rule level_ok_add)
      show "t \<notin> set (level_orders lw)"
        using not_in_book_member[OF nb mem_lw] by simp
      show "\<And>a. a \<in> set (level_orders lw) \<Longrightarrow> order_id (?h a) \<noteq> order_id (?h t)"
        using not_resting_member[OF nr mem_lw] by simp
      show "level_price lw = ?p" using lwok unfolding level_ok_def by blast
      show "distinct (level_orders lw)" using lwok unfolding level_ok_def by blast
      show "total_quantity lw = (\<Sum>a\<leftarrow>level_orders lw. remaining_quantity (?h a))"
        using lwok unfolding level_ok_def by blast
      show "\<And>a. a \<in> set (level_orders lw) \<Longrightarrow> member_ok ?h ?idx ?n ?sd ?p lw a"
        using lwok unfolding level_ok_def by blast
      show "\<And>j a. order_map lw j = Some a \<Longrightarrow> a \<in> set (level_orders lw) \<and> order_id (?h a) = j"
        using lwok unfolding level_ok_def by blast
      show "t < ?n" by (fact lt)
      show "resting_ok (?h t)" by (fact rok)
      show "side (?h t) = ?sd" by (rule refl)
      show "price (?h t) = ?p" by (rule refl)
    qed
    have dk1: "distinct (map fst (levels_of ?sd (book ?s1)))" using l1 dk by simp
    have lev: "level_ok ?h ?idx1 ?n ?sd (fst e) (snd e)"
      if "e \<in> set (levels_of ?sd (book ?s1))" for e
    proof -
      from that set1 consider "e = (?p, level_add_order ?h t lw)" | "e \<in> set ?ls" by auto
      then show ?thesis
      proof cases
        case 1
        with new_ok show ?thesis by simp
      next
        case 2
        then show ?thesis by (rule other)
      qed
    qed
    have tot1: "total_of ?sd (book ?s1) = (\<Sum>e\<leftarrow>levels_of ?sd (book ?s1). total_quantity (snd e))"
      using sum1 stot acts(6) by simp
    show ?thesis
      unfolding side_ok_def acts(1,2,3) using dk1 lev tot1 by blast
  qed
  have side_other: "side_ok (opposite ?sd) ?s1"
    unfolding side_ok_def acts(1,2,3,5,7) using so' other[of _ "opposite ?sd"]
    by (simp add: side_ok_def)
  show ?thesis
  proof (rule book_invI)
    fix sd show "side_ok sd ?s1"
      using side_cases[of sd ?sd] side_own side_other by auto
  next
    fix j a assume "orders (book ?s1) j = Some a"
    then have "(?idx(?i \<mapsto> t)) j = Some a" by (simp only: acts(3))
    with inv lt show "a < next_addr ?s1 \<and> order_id (heap ?s1 a) = j"
      unfolding acts(1,2) by (auto simp: book_inv_def split: if_splits)
  next
    show "orders (book ?s1) INVALID_ORDER_ID = None"
      unfolding acts(3) using inv id0 by (simp add: book_inv_def)
  qed
qed

section \<open>Submitting an order\<close>

text \<open>
  The text of \<^verbatim>\<open>match_market_order\<close> and \<^verbatim>\<open>match_limit_order\<close> after the loop:
  the taker's own execution and the FOK test.
\<close>

definition settle_taker ::
  "addr \<Rightarrow> engine \<times> Quantity \<times> OrderMatch list \<Rightarrow> OrderMatch list \<times> engine" where
  "settle_taker t r =
     (case r of (s1, remaining_qty, matches) \<Rightarrow>
        let s2 = s1\<lparr>heap := (heap s1)
                   (t := execute (heap s1 t) (quantity (heap s1 t) - remaining_qty))\<rparr>
        in if time_in_force (heap s2 t) = FOK \<and> remaining_qty > 0
           then ([], s2\<lparr>heap := (heap s2)(t := set_status CANCELLED (heap s2 t))\<rparr>)
           else (matches, s2))"

lemma time_in_force_execute [simp]: "time_in_force (execute ord e) = time_in_force ord"
  by (simp add: execute_def Let_def)

lemma match_market_order_eq:
  "match_market_order t s =
     (if order_type (heap s t) \<noteq> MARKET then Some ([], s)
      else map_option (settle_taker t)
             (match_walk (side (heap s t)) None t s (remaining_quantity (heap s t)) []))"
  by (auto simp: match_market_order_def settle_taker_def Let_def split: option.splits)

lemma match_limit_order_eq:
  "match_limit_order t s =
     (if order_type (heap s t) \<noteq> LIMIT then Some ([], s)
      else map_option (settle_taker t)
             (match_walk (side (heap s t)) (Some (price (heap s t))) t s
                (remaining_quantity (heap s t)) []))"
  by (auto simp: match_limit_order_def settle_taker_def Let_def split: option.splits)

text \<open>The taker after its walk: the order \<open>settle_taker\<close> leaves at the taker's address.\<close>

definition settled :: "Order \<Rightarrow> Quantity \<Rightarrow> Order" where
  "settled ord q1 =
     (if time_in_force ord = FOK \<and> q1 > 0
      then set_status CANCELLED (execute ord (quantity ord - q1))
      else execute ord (quantity ord - q1))"

lemma settle_taker_heap:
  "settle_taker t (s1, q1, ms) = (ms', s2) \<Longrightarrow>
   s2 = s1\<lparr>heap := (heap s1)(t := settled (heap s1 t) q1)\<rparr>"
  by (auto simp: settle_taker_def settled_def Let_def split: if_splits)

lemma static_settled [simp]: "static (settled ord q1) = static ord"
  by (simp add: settled_def)

lemma settled_resting_ok:
  assumes "order_type ord = LIMIT" "status ord = ACCEPTED" "executed_quantity ord = 0"
    and "q1 \<le> quantity ord" "0 < quantity ord \<longrightarrow> 0 \<le> q1"
    and "\<not> 0 < quantity ord \<longrightarrow> q1 = quantity ord"
    and "\<not> is_filled (settled ord q1)"
  shows "resting_ok (settled ord q1)"
  using assms
  by (auto simp: settled_def resting_ok_def execute_def set_status_def is_filled_def
      remaining_quantity_def Let_def split: if_splits)

lemma all_addrs_subset:
  assumes "walk_frame opp s s1"
  shows "set (all_addrs s1) \<subseteq> set (all_addrs s)"
proof
  fix a assume "a \<in> set (all_addrs s1)"
  then have "a \<in> set (book_addrs opp s1) \<or> a \<in> set (book_addrs (opposite opp) s1)"
    by (cases opp) (auto simp: all_addrs_def opposite_def)
  moreover have "book_addrs (opposite opp) s1 = book_addrs (opposite opp) s"
    using assms by (simp add: walk_frame_def book_addrs_def)
  moreover have "set (book_addrs opp s1) \<subseteq> set (book_addrs opp s)"
    using assms by (simp add: walk_frame_def)
  ultimately have "a \<in> set (book_addrs opp s) \<or> a \<in> set (book_addrs (opposite opp) s)"
    by auto
  then show "a \<in> set (all_addrs s)"
    by (cases opp) (auto simp: all_addrs_def opposite_def)
qed

lemma book_addrs_all: "set (book_addrs sd s) \<subseteq> set (all_addrs s)"
  by (cases sd) (auto simp: all_addrs_def)

lemma walk_and_settle:
  assumes inv: "book_inv s" and nb: "t \<notin> set (all_addrs s)"
    and ex0: "executed_quantity (heap s t) = 0"
  shows "\<exists>ms s2 q1. map_option (settle_taker t)
             (match_walk (side (heap s t)) limit t s (remaining_quantity (heap s t)) [])
           = Some (ms, s2)
         \<and> book_inv s2 \<and> set (all_addrs s2) \<subseteq> set (all_addrs s)
         \<and> next_addr s2 = next_addr s \<and> orders (book s2) = orders (book s)
         \<and> (\<forall>a. order_id (heap s2 a) = order_id (heap s a))
         \<and> heap s2 t = settled (heap s t) q1
         \<and> q1 \<le> quantity (heap s t) \<and> (0 < quantity (heap s t) \<longrightarrow> 0 \<le> q1)
         \<and> (\<not> 0 < quantity (heap s t) \<longrightarrow> q1 = quantity (heap s t))"
proof -
  let ?sd = "side (heap s t)"
  have q: "remaining_quantity (heap s t) = quantity (heap s t)"
    using ex0 by (simp add: remaining_quantity_def)
  from match_walk_inv[OF inv, of ?sd limit t "remaining_quantity (heap s t)" "[]"]
  obtain s1 q1 ms1 where
    mw: "match_walk ?sd limit t s (remaining_quantity (heap s t)) [] = Some (s1, q1, ms1)" and
    inv1: "book_inv s1" and wf: "walk_frame (opposite ?sd) s s1" and
    q1: "q1 \<le> quantity (heap s t)" "0 < quantity (heap s t) \<longrightarrow> 0 \<le> q1"
      "\<not> 0 < quantity (heap s t) \<longrightarrow> q1 = quantity (heap s t)"
    unfolding q by blast
  obtain ms s2 where st: "settle_taker t (s1, q1, ms1) = (ms, s2)"
    by (cases "settle_taker t (s1, q1, ms1)")
  have sub: "set (all_addrs s1) \<subseteq> set (all_addrs s)" by (rule all_addrs_subset[OF wf])
  with nb have nb1: "t \<notin> set (all_addrs s1)" by auto
  have "t \<notin> set (book_addrs (opposite ?sd) s)" using nb book_addrs_all by blast
  with wf have ht: "heap s1 t = heap s t" by (simp add: walk_frame_def)
  have s2: "s2 = s1\<lparr>heap := (heap s1)(t := settled (heap s1 t) q1)\<rparr>"
    by (rule settle_taker_heap[OF st])
  have ids1: "\<And>a. order_id (heap s1 a) = order_id (heap s a)"
    using wf static_fields unfolding walk_frame_def by blast
  have "order_id (settled (heap s1 t) q1) = order_id (heap s1 t)"
    using static_fields[OF static_settled] by blast
  from book_inv_heap_upd[OF inv1 nb1 this] have inv2: "book_inv s2" by (simp add: s2)
  have ids2: "\<And>a. order_id (heap s2 a) = order_id (heap s a)"
    using ids1 \<open>order_id (settled (heap s1 t) q1) = order_id (heap s1 t)\<close> by (simp add: s2)
  have "set (all_addrs s2) \<subseteq> set (all_addrs s)" using sub by (simp add: s2)
  moreover have "next_addr s2 = next_addr s" "orders (book s2) = orders (book s)"
    using wf by (simp_all add: s2 walk_frame_def)
  moreover have "heap s2 t = settled (heap s t) q1" using ht by (simp add: s2)
  moreover have "map_option (settle_taker t)
        (match_walk ?sd limit t s (remaining_quantity (heap s t)) []) = Some (ms, s2)"
    using mw st by simp
  ultimately show ?thesis using inv2 ids2 q1 by blast
qed

lemma is_resting_mono:
  assumes "set (all_addrs s2) \<subseteq> set (all_addrs s)"
    and "\<And>a. order_id (heap s2 a) = order_id (heap s a)"
    and "\<not> is_resting i s"
  shows "\<not> is_resting i s2"
  using assms unfolding is_resting_iff by auto

lemma add_order_inv:
  assumes inv: "book_inv s" and nb: "t \<notin> set (all_addrs s)" and lt: "t < next_addr s"
    and ex0: "executed_quantity (heap s t) = 0"
    and nr: "\<not> is_resting (order_id (heap s t)) s"
  shows "\<exists>ms s1. add_order t s = Some (ms, s1) \<and> book_inv s1 \<and> next_addr s1 = next_addr s
           \<and> (order_type (heap s t) \<noteq> LIMIT \<or> time_in_force (heap s t) = IOC
                \<longrightarrow> orders (book s1) = orders (book s)
                    \<and> set (all_addrs s1) \<subseteq> set (all_addrs s))"
proof (cases "is_valid (heap s t)")
  case False
  then have "add_order t s = Some ([], s)" by (simp add: add_order_def)
  with inv show ?thesis by simp
next
  case valid: True
  let ?o = "set_status ACCEPTED (heap s t)"
  let ?s0 = "s\<lparr>heap := (heap s)(t := ?o)\<rparr>"
  have ido: "order_id ?o = order_id (heap s t)" by (simp add: set_status_def)
  have inv0: "book_inv ?s0" by (rule book_inv_heap_upd[OF inv nb ido])
  have nb0: "t \<notin> set (all_addrs ?s0)" using nb by simp
  have h0: "heap ?s0 t = ?o" by simp
  have ex00: "executed_quantity (heap ?s0 t) = 0" using ex0 by (simp add: set_status_def)
  have ids0: "\<And>a. order_id (heap ?s0 a) = order_id (heap s a)" using ido by simp
  have ty0: "order_type ?o = order_type (heap s t)" "time_in_force ?o = time_in_force (heap s t)"
    "quantity ?o = quantity (heap s t)" "status ?o = ACCEPTED" "executed_quantity ?o = 0"
    using ex0 by (simp_all add: set_status_def)
  show ?thesis
  proof (cases "order_type (heap s t) = MARKET")
    case True
    from walk_and_settle[OF inv0 nb0 ex00, of None] obtain ms s2 q1 where
      r: "map_option (settle_taker t)
            (match_walk (side (heap ?s0 t)) None t ?s0 (remaining_quantity (heap ?s0 t)) [])
          = Some (ms, s2)"
      and inv2: "book_inv s2" and n2: "next_addr s2 = next_addr ?s0"
      and o2: "orders (book s2) = orders (book ?s0)"
      and sub2: "set (all_addrs s2) \<subseteq> set (all_addrs ?s0)"
      by blast
    have "add_order t s = Some (ms, s2)"
      using valid True r ty0 by (simp add: add_order_def Let_def match_market_order_eq)
    with inv2 n2 o2 sub2 show ?thesis by simp
  next
    case nm: False
    show ?thesis
    proof (cases "order_type (heap s t) = LIMIT")
      case False
      with nm valid ty0 have "add_order t s = Some ([], ?s0)"
        by (simp add: add_order_def Let_def)
      with inv0 show ?thesis by simp
    next
      case lim: True
      from walk_and_settle[OF inv0 nb0 ex00, of "Some (price (heap ?s0 t))"]
      obtain ms s2 q1 where
        r: "map_option (settle_taker t)
              (match_walk (side (heap ?s0 t)) (Some (price (heap ?s0 t))) t ?s0
                 (remaining_quantity (heap ?s0 t)) [])
            = Some (ms, s2)"
        and inv2: "book_inv s2" and sub2: "set (all_addrs s2) \<subseteq> set (all_addrs ?s0)"
        and n2: "next_addr s2 = next_addr ?s0"
        and o2: "orders (book s2) = orders (book ?s0)"
        and ids2: "\<forall>a. order_id (heap s2 a) = order_id (heap ?s0 a)"
        and h2: "heap s2 t = settled (heap ?s0 t) q1"
        and q1: "q1 \<le> quantity (heap ?s0 t)" "0 < quantity (heap ?s0 t) \<longrightarrow> 0 \<le> q1"
          "\<not> 0 < quantity (heap ?s0 t) \<longrightarrow> q1 = quantity (heap ?s0 t)"
        by blast
      have ml: "match_limit_order t ?s0 = Some (ms, s2)"
        using lim r ty0 by (simp add: match_limit_order_eq)
      have tif2: "time_in_force (heap s2 t) = time_in_force (heap s t)"
        using h2 static_fields[OF static_settled, of ?o q1] ty0 by simp
      show ?thesis
      proof (cases "\<not> is_filled (heap s2 t) \<and> time_in_force (heap s2 t) \<noteq> IOC")
        case False
        then have "add_order t s = Some (ms, s2)"
          using valid nm lim ml ty0 by (auto simp: add_order_def Let_def)
        with inv2 n2 o2 sub2 show ?thesis by simp
      next
        case rest: True
        then have ao: "add_order t s = Some (ms, add_limit_order_to_book t s2)"
          using valid nm lim ml ty0 by (auto simp: add_order_def Let_def)
        have nb2: "t \<notin> set (all_addrs s2)" using sub2 nb0 by auto
        have lt2: "t < next_addr s2" using n2 lt by simp
        have rok2: "resting_ok (heap s2 t)"
          unfolding h2 h0
          by (rule settled_resting_ok) (use lim ty0 q1 rest h2 in \<open>simp_all\<close>)
        have id2: "order_id (heap s2 t) = order_id (heap s t)" using ids2 ids0 by simp
        have id0: "order_id (heap s2 t) \<noteq> INVALID_ORDER_ID"
          using valid id2 by (simp add: is_valid_def)
        have "\<not> is_resting (order_id (heap s t)) s2"
        proof (rule is_resting_mono[OF _ _ nr])
          show "set (all_addrs s2) \<subseteq> set (all_addrs s)" using sub2 by simp
          show "\<And>a. order_id (heap s2 a) = order_id (heap s a)" using ids2 ids0 by simp
        qed
        then have nr2: "\<not> is_resting (order_id (heap s2 t)) s2" by (simp add: id2)
        from add_limit_order_to_book_inv[OF inv2 nb2 lt2 rok2 id0 nr2]
        have "book_inv (add_limit_order_to_book t s2)" .
        moreover have "next_addr (add_limit_order_to_book t s2) = next_addr s"
          using n2 by (simp add: add_limit_order_to_book_def Let_def)
        ultimately show ?thesis using ao lim rest tif2 by simp
      qed
    qed
  qed
qed

section \<open>Cancelling an order\<close>

lemma levels_erase_update [simp]: "levels_erase p (levels_update p f ls) = levels_erase p ls"
  by (induction ls) (auto simp: levels_erase_def levels_update_def)

lemma cancel_order_None: "orders (book s) i = None \<Longrightarrow> cancel_order i s = (False, s)"
  by (simp add: cancel_order_def)

text \<open>An id of the index whose order is in no level: the order was filled and popped.\<close>

lemma cancel_order_stale:
  assumes inv: "book_inv s" and idx: "orders (book s) i = Some a"
    and off: "a \<notin> set (all_addrs s)"
  shows "cancel_order i s = (False, s)"
proof (cases "map_of (levels_of (side (heap s a)) (book s)) (price (heap s a))")
  case None
  with idx show ?thesis by (simp add: cancel_order_def Let_def)
next
  case (Some lv)
  let ?sd = "side (heap s a)" and ?p = "price (heap s a)"
  from Some have e: "(?p, lv) \<in> set (levels_of ?sd (book s))" by (rule map_of_SomeD)
  have lok: "level_ok (heap s) (orders (book s)) (next_addr s) ?sd ?p lv"
    using book_inv_side[OF inv, of ?sd] e by (auto simp: side_ok_def)
  have "order_map lv i = None"
  proof (cases "order_map lv i")
    case (Some b)
    with lok have b: "b \<in> set (level_orders lv)" "order_id (heap s b) = i"
      unfolding level_ok_def by blast+
    from level_ok_member[OF lok b(1)] b(2) idx have "b = a" by (simp add: member_ok_def)
    with b(1) in_all_addrsI[OF e, of a] off show ?thesis by simp
  qed simp
  with idx Some show ?thesis by (simp add: cancel_order_def Let_def remove_order_def)
qed

lemma cancel_order_member:
  assumes inv: "book_inv s" and idx: "orders (book s) i = Some a"
    and e: "(p, lv) \<in> set (levels_of sd (book s))" and a: "a \<in> set (level_orders lv)"
  shows "fst (cancel_order i s)"
    and "heap (snd (cancel_order i s)) = (heap s)(a := cancel (heap s a))"
    and "next_addr (snd (cancel_order i s)) = next_addr s"
    and "orders (book (snd (cancel_order i s))) = (orders (book s))(i := None)"
    and "levels_of sd (book (snd (cancel_order i s)))
           = (if remove1 a (level_orders lv) = [] then levels_erase p (levels_of sd (book s))
              else levels_update p
                     (\<lambda>lw. lv\<lparr> total_quantity := total_quantity lv - remaining_quantity (heap s a),
                               level_orders := remove1 a (level_orders lv),
                               order_map := (order_map lv)(i := None) \<rparr>)
                     (levels_of sd (book s)))"
    and "levels_of (opposite sd) (book (snd (cancel_order i s))) = levels_of (opposite sd) (book s)"
    and "total_of sd (book (snd (cancel_order i s)))
           = total_of sd (book s) - remaining_quantity (heap s a)"
    and "total_of (opposite sd) (book (snd (cancel_order i s))) = total_of (opposite sd) (book s)"
proof -
  from member_level[OF inv e] a have sp: "side (heap s a) = sd" "price (heap s a) = p"
    and m: "map_of (levels_of sd (book s)) p = Some lv"
    by simp_all
  have mo: "member_ok (heap s) (orders (book s)) (next_addr s) sd p lv a"
    using member_ok_of_book[OF inv e] a by simp
  have "order_id (heap s a) = i" using inv idx by (simp add: book_inv_def)
  with mo have om: "order_map lv i = Some a" by (simp add: member_ok_def)
  have d: "distinct (level_orders lv)"
    using book_inv_side[OF inv, of sd] e by (auto simp: side_ok_def level_ok_def)
  have ro: "remove_order (heap s) i lv
      = (True, lv\<lparr> total_quantity := total_quantity lv - remaining_quantity (heap s a),
                   level_orders := remove1 a (level_orders lv),
                   order_map := (order_map lv)(i := None) \<rparr>)"
    using om d by (simp add: remove_order_def erase_node_distinct)
  note defs = cancel_order_def Let_def remove_price_level_if_empty_def levels_update_map_of
    level_is_empty_def
  show "fst (cancel_order i s)" using idx sp m ro by (simp add: defs)
  show "heap (snd (cancel_order i s)) = (heap s)(a := cancel (heap s a))"
    using idx sp m ro by (simp add: defs)
  show "next_addr (snd (cancel_order i s)) = next_addr s"
    using idx sp m ro by (simp add: defs)
  show "orders (book (snd (cancel_order i s))) = (orders (book s))(i := None)"
    using idx sp m ro by (simp add: defs)
  show "levels_of sd (book (snd (cancel_order i s)))
           = (if remove1 a (level_orders lv) = [] then levels_erase p (levels_of sd (book s))
              else levels_update p
                     (\<lambda>lw. lv\<lparr> total_quantity := total_quantity lv - remaining_quantity (heap s a),
                               level_orders := remove1 a (level_orders lv),
                               order_map := (order_map lv)(i := None) \<rparr>)
                     (levels_of sd (book s)))"
    using idx sp m ro by (simp add: defs)
  show "levels_of (opposite sd) (book (snd (cancel_order i s))) = levels_of (opposite sd) (book s)"
    using idx sp m ro by (simp add: defs)
  show "total_of sd (book (snd (cancel_order i s)))
           = total_of sd (book s) - remaining_quantity (heap s a)"
    using idx sp m ro by (simp add: defs)
  show "total_of (opposite sd) (book (snd (cancel_order i s))) = total_of (opposite sd) (book s)"
    using idx sp m ro by (simp add: defs)
qed

lemma level_ok_cong:
  assumes "\<And>b. b \<in> set (level_orders lv) \<Longrightarrow> h1 b = h b"
    and "\<And>b. b \<in> set (level_orders lv) \<Longrightarrow> idx1 (order_id (h b)) = idx (order_id (h b))"
  shows "level_ok h1 idx1 n sd p lv = level_ok h idx n sd p lv"
proof -
  have "level_ok h1 idx1 n sd p lv = level_ok h idx1 n sd p lv"
    by (rule level_ok_heap_cong) (rule assms(1))
  also have "\<dots> = level_ok h idx n sd p lv"
    by (rule level_ok_idx_cong) (rule assms(2))
  finally show ?thesis .
qed

lemma order_id_cancel [simp]: "order_id (cancel ord) = order_id ord"
  by (simp add: cancel_def)

text \<open>Two levels of the book that hold the same order are the same level.\<close>

lemma member_unique:
  assumes inv: "book_inv s"
    and e: "e \<in> set (levels_of sd (book s))" "a \<in> set (level_orders (snd e))"
    and e': "e' \<in> set (levels_of sd' (book s))" "a \<in> set (level_orders (snd e'))"
  shows "sd' = sd \<and> e' = e"
proof -
  from member_level[OF inv e] member_level[OF inv e']
  have "sd' = sd" "fst e' = fst e" "snd e' = snd e" by auto
  then show ?thesis by (simp add: prod_eq_iff)
qed

lemma cancel_order_inv:
  assumes inv: "book_inv s"
  shows "book_inv (snd (cancel_order i s)) \<and> next_addr (snd (cancel_order i s)) = next_addr s
         \<and> (fst (cancel_order i s) \<longrightarrow> \<not> is_resting i (snd (cancel_order i s)))"
proof (cases "orders (book s) i")
  case None
  then show ?thesis using inv by (simp add: cancel_order_None)
next
  case (Some a)
  show ?thesis
  proof (cases "a \<in> set (all_addrs s)")
    case False
    from cancel_order_stale[OF inv Some False] inv show ?thesis by simp
  next
    case True
    then obtain sd e where e: "e \<in> set (levels_of sd (book s))" "a \<in> set (level_orders (snd e))"
      unfolding in_all_addrs by blast
    obtain p lv where pl: "e = (p, lv)" by (cases e)
    with e have e2: "(p, lv) \<in> set (levels_of sd (book s))" and al: "a \<in> set (level_orders lv)"
      by simp_all
    let ?s1 = "snd (cancel_order i s)"
    let ?h = "heap s" and ?idx = "orders (book s)" and ?n = "next_addr s"
    let ?h1 = "(heap s)(a := cancel (heap s a))" and ?idx1 = "(orders (book s))(i := None)"
    let ?ls = "levels_of sd (book s)"
    let ?lv1 = "lv\<lparr> total_quantity := total_quantity lv - remaining_quantity (heap s a),
                    level_orders := remove1 a (level_orders lv),
                    order_map := (order_map lv)(i := None) \<rparr>"
    note acts = cancel_order_member[OF inv Some e2 al]
    have ida: "order_id (?h a) = i" using inv Some by (simp add: book_inv_def)
    have lok: "level_ok ?h ?idx ?n sd p lv"
      using book_inv_side[OF inv, of sd] e2 by (auto simp: side_ok_def)
    then have dist: "distinct (level_orders lv)"
      and ltot: "total_quantity lv = (\<Sum>b\<leftarrow>level_orders lv. remaining_quantity (?h b))"
      and lmem: "\<And>b. b \<in> set (level_orders lv) \<Longrightarrow> member_ok ?h ?idx ?n sd p lv b"
      and lomap: "\<And>j b. order_map lv j = Some b \<Longrightarrow> b \<in> set (level_orders lv) \<and> order_id (?h b) = j"
      unfolding level_ok_def by blast+
    have so: "side_ok sd s" and so': "side_ok (opposite sd) s"
      using inv by (rule book_inv_side)+
    from so have dk: "distinct (map fst ?ls)"
      and stot: "total_of sd (book s) = (\<Sum>e\<leftarrow>?ls. total_quantity (snd e))"
      by (simp_all add: side_ok_def)
    have m: "map_of ?ls p = Some lv" by (rule map_of_level[OF dk e2])
    \<comment> \<open>a member with the id \<open>i\<close> is the order \<open>a\<close>\<close>
    have only: "b = a" if "e' \<in> set (levels_of sd' (book s))" "b \<in> set (level_orders (snd e'))"
      "order_id (?h b) = i" for sd' e' b
      using member_ok_of_book[OF inv that(1,2)] that(3) Some by (simp add: member_ok_def)
    \<comment> \<open>every other level is untouched\<close>
    have other: "level_ok ?h1 ?idx1 ?n sd' (fst e') (snd e')"
      if e': "e' \<in> set (levels_of sd' (book s))" and ne: "e' \<noteq> (p, lv) \<or> sd' \<noteq> sd" for sd' e'
    proof -
      have na: "a \<notin> set (level_orders (snd e'))"
      proof
        assume "a \<in> set (level_orders (snd e'))"
        from member_unique[OF inv e e'(1) this] ne pl show False by auto
      qed
      have "level_ok ?h1 ?idx1 ?n sd' (fst e') (snd e') = level_ok ?h ?idx ?n sd' (fst e') (snd e')"
      proof (rule level_ok_cong)
        fix b assume b: "b \<in> set (level_orders (snd e'))"
        with na show "?h1 b = ?h b" by auto
        from only[OF e' b] na b show "?idx1 (order_id (?h b)) = ?idx (order_id (?h b))" by auto
      qed
      with book_inv_side[OF inv, of sd'] e' show ?thesis by (simp add: side_ok_def)
    qed
    have lv1_ok: "level_ok ?h1 ?idx1 ?n sd p ?lv1" if ne: "remove1 a (level_orders lv) \<noteq> []"
      unfolding level_ok_def
    proof (intro conjI ballI allI impI)
      show "level_price ?lv1 = p" using lok by (simp add: level_ok_def)
      show "level_orders ?lv1 \<noteq> []" using ne by simp
      show "distinct (level_orders ?lv1)" using dist by simp
      have "(\<Sum>b\<leftarrow>remove1 a (level_orders lv). remaining_quantity (?h1 b))
          = (\<Sum>b\<leftarrow>remove1 a (level_orders lv). remaining_quantity (?h b))"
        by (rule sum_list_cong_set) (use dist in auto)
      also have "\<dots> = (\<Sum>b\<leftarrow>level_orders lv. remaining_quantity (?h b)) - remaining_quantity (?h a)"
        by (rule sum_list_remove1[OF al])
      finally show "total_quantity ?lv1 = (\<Sum>b\<leftarrow>level_orders ?lv1. remaining_quantity (?h1 b))"
        using ltot by simp
    next
      fix b assume "b \<in> set (level_orders ?lv1)"
      then have b: "b \<in> set (level_orders lv)" "b \<noteq> a" using dist by auto
      have "order_id (?h b) \<noteq> i" using only[OF e2, of b] b by auto
      with lmem[OF b(1)] b(2) show "member_ok ?h1 ?idx1 ?n sd p ?lv1 b"
        by (simp add: member_ok_def)
    next
      fix j b assume jb: "order_map ?lv1 j = Some b"
      then have j: "j \<noteq> i" and "order_map lv j = Some b" by (auto split: if_splits)
      from lomap[OF this(2)] have b: "b \<in> set (level_orders lv)" "order_id (?h b) = j" by auto
      with j ida have "b \<noteq> a" by auto
      with b show "b \<in> set (level_orders ?lv1)" by simp
      from b \<open>b \<noteq> a\<close> show "order_id (?h1 b) = j" by simp
    qed
    have side_own: "side_ok sd ?s1"
    proof (cases "remove1 a (level_orders lv) = []")
      case True
      then have l1: "levels_of sd (book ?s1) = levels_erase p ?ls" by (simp add: acts(5))
      from True al dist have "level_orders lv = [a]"
        by (cases "level_orders lv") (auto split: if_splits)
      with ltot have tl: "total_quantity lv = remaining_quantity (?h a)" by simp
      have lev: "level_ok ?h1 ?idx1 ?n sd (fst e') (snd e')"
        if "e' \<in> set (levels_of sd (book ?s1))" for e'
        using that other[of e' sd] unfolding l1 levels_erase_set[OF dk m] by auto
      have tot1: "total_of sd (book ?s1) = (\<Sum>e\<leftarrow>levels_of sd (book ?s1). total_quantity (snd e))"
        unfolding l1 acts(7) levels_erase_sum[OF dk m] using stot tl by simp
      have dk1: "distinct (map fst (levels_of sd (book ?s1)))"
        unfolding l1 by (rule levels_erase_keys[OF dk])
      show ?thesis
        unfolding side_ok_def acts(2,3,4) using dk1 lev tot1 by blast
    next
      case False
      then have l1: "levels_of sd (book ?s1) = levels_update p (\<lambda>lw. ?lv1) ?ls"
        by (simp add: acts(5))
      have lev: "level_ok ?h1 ?idx1 ?n sd (fst e') (snd e')"
        if "e' \<in> set (levels_of sd (book ?s1))" for e'
      proof -
        from that consider "e' = (p, ?lv1)" | "e' \<in> set ?ls" "e' \<noteq> (p, lv)"
          unfolding l1 levels_update_set[OF dk m] by auto
        then show ?thesis
        proof cases
          case 1
          with lv1_ok[OF False] show ?thesis by simp
        next
          case 2
          then show ?thesis using other[of e' sd] by simp
        qed
      qed
      have tot1: "total_of sd (book ?s1) = (\<Sum>e\<leftarrow>levels_of sd (book ?s1). total_quantity (snd e))"
        unfolding l1 acts(7) levels_update_sum[OF dk m] using stot by simp
      have dk1: "distinct (map fst (levels_of sd (book ?s1)))"
        unfolding l1 using dk by simp
      show ?thesis
        unfolding side_ok_def acts(2,3,4) using dk1 lev tot1 by blast
    qed
    have side_other: "side_ok (opposite sd) ?s1"
      unfolding side_ok_def acts(2,3,4,6,8) using so' other[of _ "opposite sd"]
      by (simp add: side_ok_def)
    have inv1: "book_inv ?s1"
    proof (rule book_invI)
      fix sd' show "side_ok sd' ?s1"
        using side_cases[of sd' sd] side_own side_other by auto
    next
      fix j b assume "orders (book ?s1) j = Some b"
      then have "?idx1 j = Some b" by (simp only: acts(4))
      then have "?idx j = Some b" by (auto split: if_splits)
      with inv have "b < ?n \<and> order_id (?h b) = j" by (simp add: book_inv_def)
      then show "b < next_addr ?s1 \<and> order_id (heap ?s1 b) = j"
        unfolding acts(2,3) by auto
    next
      show "orders (book ?s1) INVALID_ORDER_ID = None"
        unfolding acts(4) using inv by (simp add: book_inv_def)
    qed
    have nr: "\<not> is_resting i ?s1"
    proof
      assume "is_resting i ?s1"
      then obtain b where b: "b \<in> set (all_addrs ?s1)" "order_id (heap ?s1 b) = i"
        unfolding is_resting_iff by blast
      then obtain sd' e' where e': "e' \<in> set (levels_of sd' (book ?s1))"
        "b \<in> set (level_orders (snd e'))"
        unfolding in_all_addrs by blast
      from member_ok_of_book[OF inv1 e'] b(2) have "orders (book ?s1) i = Some b"
        by (simp add: member_ok_def)
      then show False by (simp add: acts(4))
    qed
    from inv1 nr acts(3) show ?thesis by simp
  qed
qed

section \<open>Allocating and modifying\<close>

lemma member_lt_next:
  assumes "book_inv s" "a \<in> set (all_addrs s)"
  shows "a < next_addr s"
proof -
  from assms(2) obtain sd e where "e \<in> set (levels_of sd (book s))" "a \<in> set (level_orders (snd e))"
    unfolding in_all_addrs by blast
  from member_ok_of_book[OF assms(1) this] show ?thesis by (simp add: member_ok_def)
qed

lemma book_inv_alloc:
  assumes inv: "book_inv s"
  shows "book_inv (s\<lparr>heap := (heap s)(next_addr s := ord), next_addr := Suc (next_addr s)\<rparr>)"
    (is "book_inv ?s1")
proof (rule book_invI)
  fix sd
  have so: "side_ok sd s" using inv by (rule book_inv_side)
  have "level_ok (heap ?s1) (orders (book s)) (Suc (next_addr s)) sd (fst e) (snd e)"
    if e: "e \<in> set (levels_of sd (book s))" for e
  proof -
    have "heap ?s1 b = heap s b" if "b \<in> set (level_orders (snd e))" for b
      using member_lt_next[OF inv in_all_addrsI[OF e that]] by simp
    from level_ok_heap_cong[of "snd e" "heap ?s1" "heap s", OF this] so e
    have "level_ok (heap ?s1) (orders (book s)) (next_addr s) sd (fst e) (snd e)"
      by (simp add: side_ok_def)
    then show ?thesis by (rule level_ok_next_mono) simp
  qed
  with so show "side_ok sd ?s1" by (simp add: side_ok_def)
next
  fix j b assume "orders (book ?s1) j = Some b"
  with inv have "b < next_addr s \<and> order_id (heap s b) = j" by (simp add: book_inv_def)
  then show "b < next_addr ?s1 \<and> order_id (heap ?s1 b) = j" by auto
next
  show "orders (book ?s1) INVALID_ORDER_ID = None" using inv by (simp add: book_inv_def)
qed

lemma all_addrs_alloc [simp]: "all_addrs (s\<lparr>heap := h, next_addr := n\<rparr>) = all_addrs s"
  by (simp add: all_addrs_def book_addrs_def)

lemma is_resting_alloc:
  assumes inv: "book_inv s"
  shows "is_resting i (s\<lparr>heap := (heap s)(next_addr s := ord), next_addr := Suc (next_addr s)\<rparr>)
         = is_resting i s"
proof -
  have "\<And>a. a \<in> set (all_addrs s) \<Longrightarrow> a \<noteq> next_addr s"
    using member_lt_next[OF inv] by auto
  then show ?thesis unfolding is_resting_iff by auto
qed

lemma submit_inv:
  assumes inv: "book_inv s" and nr: "\<not> is_resting i s"
  shows "\<exists>ms s1. submit i smb sd ty q p tif s = Some (ms, s1) \<and> book_inv s1
           \<and> (ty \<noteq> LIMIT \<or> tif = IOC
                \<longrightarrow> orders (book s1) = orders (book s)
                    \<and> set (all_addrs s1) \<subseteq> set (all_addrs s))"
proof -
  let ?n = "next_addr s"
  let ?ord = "new_Order i smb sd ty q p tif"
  let ?s0 = "s\<lparr>heap := (heap s)(?n := ?ord), next_addr := Suc ?n\<rparr>"
  have sub: "submit i smb sd ty q p tif s = add_order ?n ?s0"
    by (simp add: submit_def make_shared_def)
  have inv0: "book_inv ?s0" by (rule book_inv_alloc[OF inv])
  have nb: "?n \<notin> set (all_addrs ?s0)" using member_lt_next[OF inv, of ?n] by auto
  have h: "heap ?s0 ?n = ?ord" by simp
  have nr0: "\<not> is_resting (order_id (heap ?s0 ?n)) ?s0"
    using nr is_resting_alloc[OF inv, of i ?ord] by (simp add: new_Order_def)
  have ex0: "executed_quantity (heap ?s0 ?n) = 0" by (simp add: new_Order_def)
  from add_order_inv[OF inv0 nb _ ex0 nr0] obtain ms s1 where
    "add_order ?n ?s0 = Some (ms, s1)" "book_inv s1"
    "order_type (heap ?s0 ?n) \<noteq> LIMIT \<or> time_in_force (heap ?s0 ?n) = IOC
       \<longrightarrow> orders (book s1) = orders (book ?s0)
           \<and> set (all_addrs s1) \<subseteq> set (all_addrs ?s0)"
    by auto
  then show ?thesis unfolding sub by (auto simp: new_Order_def)
qed

lemma set_levels_same [simp]: "set_levels sd (levels_of sd b) b = b"
  by (cases sd) (simp_all add: set_levels_def levels_of_def)

lemma set_total_same [simp]: "set_total sd (total_of sd b) b = b"
  by (cases sd) (simp_all add: set_total_def total_of_def)

lemma levels_update_same:
  "distinct (map fst ls) \<Longrightarrow> map_of ls p = Some lv \<Longrightarrow> levels_update p (\<lambda>lw. lv) ls = ls"
proof (induction ls)
  case Nil
  then show ?case by (simp add: levels_update_def)
next
  case (Cons e ls)
  obtain q l where e: "e = (q, l)" by (cases e)
  show ?case
  proof (cases "q = p")
    case True
    with Cons.prems e have "l = lv" "p \<notin> fst ` set ls" by auto
    moreover from this(2) have "levels_update p (\<lambda>lw. lv) ls = ls"
      by (induction ls) (auto simp: levels_update_def)
    ultimately show ?thesis using e True by (simp add: levels_update_def)
  next
    case False
    with Cons.prems e have "map_of ls p = Some lv" "distinct (map fst ls)" by auto
    from Cons.IH[OF this(2,1)] e False show ?thesis by (simp add: levels_update_def)
  qed
qed

text \<open>
  Replacing an order of the book by one with the same identity, side and price, with the
  totals of its level and side following its remaining quantity.
\<close>

lemma book_inv_member_update:
  assumes inv: "book_inv s"
    and e: "(p, lv) \<in> set (levels_of sd (book s))" and al: "a \<in> set (level_orders lv)"
    and st: "static ord = static (heap s a)" and rok: "resting_ok ord"
    and h1: "heap s1 = (heap s)(a := ord)"
    and n1: "next_addr s1 = next_addr s"
    and o1: "orders (book s1) = orders (book s)"
    and l1: "levels_of sd (book s1)
             = levels_update p
                 (\<lambda>lw. lv\<lparr>total_quantity := total_quantity lv - remaining_quantity (heap s a)
                                               + remaining_quantity ord\<rparr>)
                 (levels_of sd (book s))"
    and l1': "levels_of (opposite sd) (book s1) = levels_of (opposite sd) (book s)"
    and t1: "total_of sd (book s1)
             = total_of sd (book s) - remaining_quantity (heap s a) + remaining_quantity ord"
    and t1': "total_of (opposite sd) (book s1) = total_of (opposite sd) (book s)"
  shows "book_inv s1"
proof -
  let ?h = "heap s" and ?idx = "orders (book s)" and ?n = "next_addr s"
  let ?h1 = "(heap s)(a := ord)"
  let ?ls = "levels_of sd (book s)"
  let ?lv1 = "lv\<lparr>total_quantity := total_quantity lv - remaining_quantity (heap s a)
                                      + remaining_quantity ord\<rparr>"
  have ids: "order_id ord = order_id (?h a)" "side ord = side (?h a)" "price ord = price (?h a)"
    using static_fields[OF st] by simp_all
  have lok: "level_ok ?h ?idx ?n sd p lv"
    using book_inv_side[OF inv, of sd] e by (auto simp: side_ok_def)
  then have dist: "distinct (level_orders lv)"
    and ltot: "total_quantity lv = (\<Sum>b\<leftarrow>level_orders lv. remaining_quantity (?h b))"
    and lmem: "\<And>b. b \<in> set (level_orders lv) \<Longrightarrow> member_ok ?h ?idx ?n sd p lv b"
    and lomap: "\<And>j b. order_map lv j = Some b \<Longrightarrow> b \<in> set (level_orders lv) \<and> order_id (?h b) = j"
    and lne: "level_orders lv \<noteq> []" and lp: "level_price lv = p"
    unfolding level_ok_def by blast+
  have so: "side_ok sd s" and so': "side_ok (opposite sd) s"
    using inv by (rule book_inv_side)+
  from so have dk: "distinct (map fst ?ls)"
    and stot: "total_of sd (book s) = (\<Sum>e\<leftarrow>?ls. total_quantity (snd e))"
    by (simp_all add: side_ok_def)
  have m: "map_of ?ls p = Some lv" by (rule map_of_level[OF dk e])
  have e0: "(p, lv) \<in> set (levels_of sd (book s))" "a \<in> set (level_orders (snd (p, lv)))"
    using e al by simp_all
  have other: "level_ok ?h1 ?idx ?n sd' (fst e') (snd e')"
    if e': "e' \<in> set (levels_of sd' (book s))" and ne: "e' \<noteq> (p, lv) \<or> sd' \<noteq> sd" for sd' e'
  proof -
    have na: "a \<notin> set (level_orders (snd e'))"
    proof
      assume "a \<in> set (level_orders (snd e'))"
      from member_unique[OF inv e0 e' this] ne show False by auto
    qed
    have "level_ok ?h1 ?idx ?n sd' (fst e') (snd e') = level_ok ?h ?idx ?n sd' (fst e') (snd e')"
      by (rule level_ok_heap_cong) (use na in auto)
    with book_inv_side[OF inv, of sd'] e' show ?thesis by (simp add: side_ok_def)
  qed
  have sum_split: "(\<Sum>b\<leftarrow>level_orders lv. remaining_quantity (?h1 b))
      = (\<Sum>b\<leftarrow>level_orders lv. remaining_quantity (?h b))
          - remaining_quantity (?h a) + remaining_quantity ord"
    using al dist
  proof (induction "level_orders lv" arbitrary: lv)
    case Nil
    then show ?case by simp
  next
    case (Cons x xs)
    show ?case
    proof (cases "x = a")
      case True
      with Cons.hyps(2) Cons.prems(2) have "a \<notin> set xs" by (metis distinct.simps(2))
      then have "(\<Sum>b\<leftarrow>xs. remaining_quantity (?h1 b)) = (\<Sum>b\<leftarrow>xs. remaining_quantity (?h b))"
        by (intro sum_list_cong_set) auto
      with True Cons.hyps(2)[symmetric] show ?thesis by simp
    next
      case False
      obtain lw where lw: "xs = level_orders (lw :: PriceLevel)"
        by (metis PriceLevel.select_convs(3))
      from Cons.hyps(2) Cons.prems False have "a \<in> set xs" "distinct xs"
        by (metis set_ConsD, metis distinct.simps(2))
      from Cons.hyps(1)[OF lw] this lw have
        "(\<Sum>b\<leftarrow>xs. remaining_quantity (?h1 b))
          = (\<Sum>b\<leftarrow>xs. remaining_quantity (?h b)) - remaining_quantity (?h a)
              + remaining_quantity ord" by simp
      with False Cons.hyps(2)[symmetric] show ?thesis by simp
    qed
  qed
  have lv1_ok: "level_ok ?h1 ?idx ?n sd p ?lv1"
    unfolding level_ok_def
  proof (intro conjI ballI allI impI)
    show "level_price ?lv1 = p" using lp by simp
    show "level_orders ?lv1 \<noteq> []" using lne by simp
    show "distinct (level_orders ?lv1)" using dist by simp
    show "total_quantity ?lv1 = (\<Sum>b\<leftarrow>level_orders ?lv1. remaining_quantity (?h1 b))"
      using sum_split ltot by simp
  next
    fix b assume "b \<in> set (level_orders ?lv1)"
    then have b: "b \<in> set (level_orders lv)" by simp
    from lmem[OF b] lmem[OF al] rok ids show "member_ok ?h1 ?idx ?n sd p ?lv1 b"
      by (cases "b = a") (simp_all add: member_ok_def)
  next
    fix j b assume "order_map ?lv1 j = Some b"
    then have "order_map lv j = Some b" by simp
    from lomap[OF this] ids show "b \<in> set (level_orders ?lv1)" "order_id (?h1 b) = j" by auto
  qed
  have lev: "level_ok (heap s1) (orders (book s1)) (next_addr s1) sd (fst e') (snd e')"
    if "e' \<in> set (levels_of sd (book s1))" for e'
  proof -
    from that consider "e' = (p, ?lv1)" | "e' \<in> set ?ls" "e' \<noteq> (p, lv)"
      unfolding l1 levels_update_set[OF dk m] by auto
    then show ?thesis
    proof cases
      case 1
      with lv1_ok show ?thesis by (simp add: h1 n1 o1)
    next
      case 2
      then show ?thesis using other[of e' sd] by (simp add: h1 n1 o1)
    qed
  qed
  have tot1: "total_of sd (book s1) = (\<Sum>e\<leftarrow>levels_of sd (book s1). total_quantity (snd e))"
    unfolding l1 t1 levels_update_sum[OF dk m] using stot by simp
  have dk1: "distinct (map fst (levels_of sd (book s1)))" unfolding l1 using dk by simp
  have side_own: "side_ok sd s1"
    unfolding side_ok_def using dk1 lev tot1 by blast
  have side_other: "side_ok (opposite sd) s1"
    unfolding side_ok_def l1' t1' h1 n1 o1 using so' other[of _ "opposite sd"]
    by (simp add: side_ok_def)
  show ?thesis
  proof (rule book_invI)
    fix sd' show "side_ok sd' s1"
      using side_cases[of sd' sd] side_own side_other by auto
  next
    fix j b assume "orders (book s1) j = Some b"
    with inv have "b < ?n \<and> order_id (?h b) = j" by (simp add: book_inv_def o1)
    then show "b < next_addr s1 \<and> order_id (heap s1 b) = j"
      unfolding h1 n1 using ids by auto
  next
    show "orders (book s1) INVALID_ORDER_ID = None"
      unfolding o1 using inv by (simp add: book_inv_def)
  qed
qed

lemma resting_ok_replaced:
  "resting_ok ord \<Longrightarrow> resting_ok (set_status REPLACED ord)"
  by (simp add: resting_ok_def set_status_def)

lemma resting_ok_requantified:
  "resting_ok ord \<Longrightarrow> \<not> q < executed_quantity ord \<Longrightarrow>
   resting_ok (set_status REPLACED (set_quantity q ord))"
  by (simp add: resting_ok_def set_status_def set_quantity_def)

lemma remaining_set_status [simp]:
  "remaining_quantity (set_status st ord) = remaining_quantity ord"
  by (simp add: set_status_def remaining_quantity_def)

lemma levels_update_orders:
  assumes "distinct (map fst ls)" "map_of ls p = Some lv" "level_orders lv1 = level_orders lv"
  shows "map (\<lambda>e. (fst e, level_orders (snd e))) (levels_update p (\<lambda>lw. lv1) ls)
         = map (\<lambda>e. (fst e, level_orders (snd e))) ls"
proof -
  have "(case x of (q, lw) \<Rightarrow> (fst (if q = p then (q, lv1) else (q, lw)),
                              level_orders (snd (if q = p then (q, lv1) else (q, lw)))))
        = (fst x, level_orders (snd x))" if "x \<in> set ls" for x
  proof (cases x)
    case (Pair q lw)
    show ?thesis
    proof (cases "q = p")
      case True
      with that Pair assms(1) have "map_of ls p = Some lw" by simp
      with assms(2,3) True Pair show ?thesis by simp
    next
      case False
      with Pair show ?thesis by simp
    qed
  qed
  then show ?thesis
    unfolding levels_update_def map_map
    by (intro map_cong refl) (auto simp: case_prod_beta)
qed

text \<open>The in-place path of \<^verbatim>\<open>modify_order\<close> on an order of the book.\<close>

lemma modify_in_place_member:
  assumes inv: "book_inv s" and idx: "orders (book s) i = Some a"
    and e: "(p, lv) \<in> set (levels_of sd (book s))" and al: "a \<in> set (level_orders lv)"
    and le: "q \<le> quantity (heap s a)"
  shows "\<exists>s1. modify_order i None (Some q) s = Some ([], s1) \<and> book_inv s1
           \<and> heap s1 = (heap s)(a := if q < executed_quantity (heap s a)
                                       then set_status REPLACED (heap s a)
                                       else set_status REPLACED (set_quantity q (heap s a)))
           \<and> orders (book s1) = orders (book s)
           \<and> map (\<lambda>e. (fst e, level_orders (snd e))) (levels_of sd (book s1))
               = map (\<lambda>e. (fst e, level_orders (snd e))) (levels_of sd (book s))
           \<and> levels_of (opposite sd) (book s1) = levels_of (opposite sd) (book s)"
proof -
  let ?h = "heap s"
  from member_level[OF inv e] al have sp: "side (?h a) = sd" "price (?h a) = p"
    and m: "map_of (levels_of sd (book s)) p = Some lv"
    by simp_all
  have mo: "member_ok ?h (orders (book s)) (next_addr s) sd p lv a"
    using member_ok_of_book[OF inv e] al by simp
  have "order_id (?h a) = i" using inv idx by (simp add: book_inv_def)
  with mo have om: "order_map lv i = Some a" and rok: "resting_ok (?h a)"
    by (simp_all add: member_ok_def)
  have dk: "distinct (map fst (levels_of sd (book s)))"
    using book_inv_side[OF inv, of sd] by (simp add: side_ok_def)
  define ord where "ord = (if q < executed_quantity (?h a) then set_status REPLACED (?h a)
                           else set_status REPLACED (set_quantity q (?h a)))"
  let ?lv1 = "lv\<lparr>total_quantity := total_quantity lv - remaining_quantity (?h a)
                                      + remaining_quantity ord\<rparr>"
  define s1 where "s1 = s\<lparr> heap := ?h(a := ord),
      book := set_total sd (total_of sd (book s) - remaining_quantity (?h a) + remaining_quantity ord)
                (set_levels sd (levels_update p (\<lambda>lw. ?lv1) (levels_of sd (book s))) (book s)) \<rparr>"
  have res: "modify_order i None (Some q) s = Some ([], s1)"
  proof (cases "q < executed_quantity (?h a)")
    case True
    then have o: "ord = set_status REPLACED (?h a)" by (simp add: ord_def)
    have r: "remaining_quantity ord = remaining_quantity (?h a)"
      by (simp add: o set_status_def remaining_quantity_def)
    have "s1 = s\<lparr>heap := ?h(a := ord)\<rparr>"
      by (simp add: s1_def r levels_update_same[OF dk m])
    then show ?thesis
      using idx le sp m om True
      by (simp add: modify_order_def Let_def modify_order_quantity_def o
          levels_update_same[OF dk m])
  next
    case False
    then have o: "ord = set_status REPLACED (set_quantity q (?h a))" by (simp add: ord_def)
    have r: "remaining_quantity ord = remaining_quantity (set_quantity q (?h a))"
      by (simp add: o set_status_def remaining_quantity_def)
    show ?thesis
      using idx le sp m om False
      by (simp add: modify_order_def Let_def modify_order_quantity_def o s1_def r)
  qed
  have st: "static ord = static (?h a)" by (simp add: ord_def)
  have rok1: "resting_ok ord"
    using rok resting_ok_replaced resting_ok_requantified by (simp add: ord_def)
  have inv1: "book_inv s1"
    by (rule book_inv_member_update[OF inv e al st rok1]) (simp_all add: s1_def)
  have "map (\<lambda>e. (fst e, level_orders (snd e))) (levels_update p (\<lambda>lw. ?lv1) (levels_of sd (book s)))
        = map (\<lambda>e. (fst e, level_orders (snd e))) (levels_of sd (book s))"
    by (rule levels_update_orders[OF dk m]) simp
  then show ?thesis using res inv1 by (simp add: s1_def ord_def)
qed

lemma stale_not_in_level:
  assumes inv: "book_inv s" and idx: "orders (book s) i = Some a"
    and off: "a \<notin> set (all_addrs s)"
    and e: "(p, lv) \<in> set (levels_of sd (book s))"
  shows "order_map lv i = None"
proof (cases "order_map lv i")
  case (Some b)
  have lok: "level_ok (heap s) (orders (book s)) (next_addr s) sd p lv"
    using book_inv_side[OF inv, of sd] e by (auto simp: side_ok_def)
  with Some have b: "b \<in> set (level_orders lv)" "order_id (heap s b) = i"
    unfolding level_ok_def by blast+
  from level_ok_member[OF lok b(1)] b(2) idx have "b = a" by (simp add: member_ok_def)
  with b(1) in_all_addrsI[OF e, of a] off show ?thesis by simp
qed simp

text \<open>The in-place path on an id of the index whose order is in no level.\<close>

lemma modify_in_place_stale:
  assumes inv: "book_inv s" and idx: "orders (book s) i = Some a"
    and off: "a \<notin> set (all_addrs s)" and le: "q \<le> quantity (heap s a)"
  shows "modify_order i None (Some q) s
         = Some ([], s\<lparr>heap := (heap s)(a := set_status REPLACED (heap s a))\<rparr>)"
proof (cases "map_of (levels_of (side (heap s a)) (book s)) (price (heap s a))")
  case None
  with idx le show ?thesis by (simp add: modify_order_def Let_def)
next
  case (Some lv)
  let ?sd = "side (heap s a)" and ?p = "price (heap s a)"
  from Some have e: "(?p, lv) \<in> set (levels_of ?sd (book s))" by (rule map_of_SomeD)
  have om: "order_map lv i = None" by (rule stale_not_in_level[OF inv idx off e])
  have dk: "distinct (map fst (levels_of ?sd (book s)))"
    using book_inv_side[OF inv, of ?sd] by (simp add: side_ok_def)
  show ?thesis
    using idx le Some om
    by (simp add: modify_order_def Let_def modify_order_quantity_def levels_update_same[OF dk Some])
qed

lemma modify_order_replace_eq:
  assumes "orders (book s) i = Some a"
    and "\<not> (new_price = None \<and> new_quantity = None)"
    and "\<not> (new_price = None \<and> new_quantity \<noteq> None
            \<and> the new_quantity \<le> quantity (heap s a))"
  shows "modify_order i new_price new_quantity s
         = (if \<not> fst (cancel_order i s) then Some ([], snd (cancel_order i s))
            else submit i (symbol (heap (snd (cancel_order i s)) a))
                   (side (heap (snd (cancel_order i s)) a))
                   (order_type (heap (snd (cancel_order i s)) a))
                   (case new_quantity of None \<Rightarrow> quantity (heap (snd (cancel_order i s)) a)
                    | Some q \<Rightarrow> q)
                   (case new_price of None \<Rightarrow> price (heap (snd (cancel_order i s)) a)
                    | Some p \<Rightarrow> p)
                   (time_in_force (heap (snd (cancel_order i s)) a))
                   (snd (cancel_order i s)))"
  using assms
  by (cases new_price; cases new_quantity)
    (simp_all add: modify_order_def Let_def case_prod_beta submit_def)

lemma modify_order_inv:
  assumes inv: "book_inv s"
  shows "\<exists>ms s1. modify_order i new_price new_quantity s = Some (ms, s1) \<and> book_inv s1"
proof (cases "new_price = None \<and> new_quantity = None")
  case True
  then show ?thesis using inv by (simp add: modify_order_def)
next
  case some: False
  show ?thesis
  proof (cases "orders (book s) i")
    case None
    with some inv show ?thesis by (auto simp: modify_order_def)
  next
    case (Some a)
    show ?thesis
    proof (cases "new_price = None \<and> new_quantity \<noteq> None
                  \<and> the new_quantity \<le> quantity (heap s a)")
      case True
      then obtain q where q: "new_price = None" "new_quantity = Some q" "q \<le> quantity (heap s a)"
        by auto
      show ?thesis
      proof (cases "a \<in> set (all_addrs s)")
        case False
        have "order_id (set_status REPLACED (heap s a)) = order_id (heap s a)"
          by (simp add: set_status_def)
        from book_inv_heap_upd[OF inv False this] modify_in_place_stale[OF inv Some False q(3)]
        show ?thesis using q by simp
      next
        case mem: True
        then obtain sd e where "e \<in> set (levels_of sd (book s))" "a \<in> set (level_orders (snd e))"
          unfolding in_all_addrs by blast
        then have "(fst e, snd e) \<in> set (levels_of sd (book s))" "a \<in> set (level_orders (snd e))"
          by simp_all
        from modify_in_place_member[OF inv Some this q(3)] q show ?thesis by blast
      qed
    next
      case False
      let ?c = "cancel_order i s"
      let ?s1 = "snd ?c"
      from cancel_order_inv[OF inv, of i] have inv1: "book_inv ?s1"
        and nr: "fst ?c \<longrightarrow> \<not> is_resting i ?s1" by simp_all
      show ?thesis
      proof (cases "fst ?c")
        case nc: False
        then have "modify_order i new_price new_quantity s = Some ([], ?s1)"
          by (simp add: modify_order_replace_eq[OF Some some False])
        with inv1 show ?thesis by simp
      next
        case c: True
        let ?ord = "heap ?s1 a"
        have "modify_order i new_price new_quantity s
            = submit i (symbol ?ord) (side ?ord) (order_type ?ord)
                (case new_quantity of None \<Rightarrow> quantity ?ord | Some q \<Rightarrow> q)
                (case new_price of None \<Rightarrow> price ?ord | Some p \<Rightarrow> p)
                (time_in_force ?ord) ?s1"
          using c by (simp add: modify_order_replace_eq[OF Some some False])
        moreover from nr c have "\<not> is_resting i ?s1" by simp
        from submit_inv[OF inv1 this] have
          "\<exists>ms s2. submit i (symbol ?ord) (side ?ord) (order_type ?ord)
                (case new_quantity of None \<Rightarrow> quantity ?ord | Some q \<Rightarrow> q)
                (case new_price of None \<Rightarrow> price ?ord | Some p \<Rightarrow> p)
                (time_in_force ?ord) ?s1 = Some (ms, s2) \<and> book_inv s2"
          by blast
        ultimately show ?thesis by simp
      qed
    qed
  qed
qed


section \<open>Sequences of operations\<close>

lemma new_engine_inv: "book_inv (new_engine smb)"
  by (simp add: book_inv_def side_ok_def new_engine_def new_OrderBook_def levels_of_def
      total_of_def split: Side.splits)

lemma apply_op_inv:
  assumes inv: "book_inv s" and v: "valid_op x s"
  shows "\<exists>s1. apply_op x s = Some s1 \<and> book_inv s1"
proof (cases x)
  case (Submit i smb sd ty q p tif)
  with v have "\<not> is_resting i s" by simp
  from submit_inv[OF inv this, of smb sd ty q p tif] Submit show ?thesis by auto
next
  case (Cancel i)
  with cancel_order_inv[OF inv, of i] show ?thesis by simp
next
  case (Modify i np nq)
  with modify_order_inv[OF inv, of i np nq] show ?thesis by auto
qed

lemma run_inv:
  "book_inv s \<Longrightarrow> valid_run xs s \<Longrightarrow> \<exists>s1. run xs s = Some s1 \<and> book_inv s1"
proof (induction xs arbitrary: s)
  case Nil
  then show ?case by simp
next
  case (Cons x xs)
  from Cons.prems have v: "valid_op x s" by simp
  from apply_op_inv[OF Cons.prems(1) v] obtain s1 where
    s1: "apply_op x s = Some s1" "book_inv s1" by blast
  with Cons.prems have "valid_run xs s1" by simp
  from Cons.IH[OF s1(2) this] s1(1) show ?case by simp
qed

lemma run_valid_cases:
  assumes "valid_run xs (new_engine smb)"
  obtains s where "run xs (new_engine smb) = Some s" "book_inv s"
  using run_inv[OF new_engine_inv assms] by blast


section \<open>States reached by valid operations\<close>

lemma valid_run_last:
  "valid_run (xs @ [x]) s \<Longrightarrow> run xs s = Some s1 \<Longrightarrow> valid_op x s1"
  by (induction xs arbitrary: s) (auto split: option.splits)

lemma valid_run_butlast: "valid_run (xs @ ys) s \<Longrightarrow> valid_run xs s"
  by (induction xs arbitrary: s) (auto split: option.splits)



text \<open>What the invariant says of an order held by a price level.\<close>

lemma resting_of_inv:
  assumes inv: "book_inv s" and a: "a \<in> set (all_addrs s)"
  shows "resting_ok (heap s a)" and "get_order (order_id (heap s a)) s = Some a"
    and "a \<in> set (get_orders_at_level (price (heap s a)) (side (heap s a)) s)"
proof -
  from a obtain sd e where e: "e \<in> set (levels_of sd (book s))"
    and m: "a \<in> set (level_orders (snd e))"
    using in_all_addrs by blast
  from member_ok_of_book[OF inv e m]
  show "resting_ok (heap s a)" and "get_order (order_id (heap s a)) s = Some a"
    by (simp_all add: member_ok_def get_order_def)
  from member_level[OF inv e m] m
  show "a \<in> set (get_orders_at_level (price (heap s a)) (side (heap s a)) s)"
    by (simp add: get_orders_at_level_def)
qed

text \<open>The levels and totals of a state that satisfies the invariant.\<close>

lemma totals_of_inv:
  assumes inv: "book_inv s"
  shows "\<forall>e\<in>set (levels_of sd (book s)).
           total_quantity (snd e) = (\<Sum>a\<leftarrow>level_orders (snd e). remaining_quantity (heap s a))"
    and "total_of sd (book s) = (\<Sum>e\<leftarrow>levels_of sd (book s). total_quantity (snd e))"
  using book_inv_side[OF inv, of sd] by (simp_all add: side_ok_def level_ok_def)




section \<open>Properties of the numeric domain\<close>

text \<open>
  The formatter on a value that is neither \<^verbatim>\<open>INVALID\<close> nor \<^verbatim>\<open>MAX_VALUE\<close>: the
  negation does not overflow, the quotient and the remainder are those of the absolute
  value, and the text written is the format of the specification on the value read in
  two's complement.  The fraction has exactly four digits.
\<close>

lemma sint_word_of_int64:
  "- (2 ^ 63) \<le> k \<Longrightarrow> k < 2 ^ 63 \<Longrightarrow> sint (word_of_int k :: int64) = k"
  by (simp add: sint_sbintrunc' signed_take_bit_int_eq_self)

lemma sint_not_lowest:
  fixes v :: int64
  assumes "v \<noteq> INT64_LOWEST"
  shows "- (2 ^ 63) < sint v"
proof -
  have "sint v \<noteq> - (2 ^ 63)"
  proof
    assume "sint v = - (2 ^ 63)"
    then have "word_of_int (sint v) = (word_of_int (- (2 ^ 63)) :: int64)" by simp
    then have "v = INT64_LOWEST" by (simp add: INT64_LOWEST_def)
    with assms show False by simp
  qed
  moreover have "- (2 ^ 63) \<le> sint v" using sint_ge[of v] by simp
  ultimately show ?thesis by simp
qed

lemma sint_abs64:
  fixes v :: int64
  assumes "v \<noteq> INT64_LOWEST"
  shows "sint (if sint v < 0 then - v else v) = \<bar>sint v\<bar>"
proof -
  have lo: "- (2 ^ 63) < sint v" using assms by (rule sint_not_lowest)
  have hi: "sint v < 2 ^ 63" using sint_lt[of v] by simp
  have "sint (- v) = - sint v"
    using lo hi by (simp add: sint_word_minus signed_take_bit_int_eq_self)
  then show ?thesis by simp
qed

lemma put_int64_div:
  assumes "0 \<le> k" "k < 2 ^ 63" "sint a = k"
  shows "put_int64 (int64_div a SCALE_FACTOR) = dec_digits (nat (k div 10000))"
    and "put_int64 (int64_mod a SCALE_FACTOR) = dec_digits (nat (k mod 10000))"
proof -
  have d: "k sdiv 10000 = k div 10000"
    using assms(1) by (cases "k = 0") (simp_all add: signed_divide_int_def)
  have m: "k smod 10000 = k mod 10000"
    using assms(1) by (simp add: smod_mod_positive)
  have "k div 10000 \<le> k div 1" using assms(1) by (intro zdiv_mono2) simp_all
  then have dle: "k div 10000 \<le> k" by simp
  have mle: "k mod 10000 \<le> k" using assms(1) by (rule zmod_le_nonneg_dividend)
  have dr: "0 \<le> k div 10000" "k div 10000 < 2 ^ 63"
    using assms(1,2) dle by (simp_all add: pos_imp_zdiv_nonneg_iff)
  have mr: "0 \<le> k mod 10000" "k mod 10000 < 2 ^ 63"
    using assms(2) mle by simp_all
  have sd: "sint (word_of_int (k div 10000) :: int64) = k div 10000"
    using dr by (intro sint_word_of_int64) simp_all
  have sm: "sint (word_of_int (k mod 10000) :: int64) = k mod 10000"
    using mr by (intro sint_word_of_int64) simp_all
  show "put_int64 (int64_div a SCALE_FACTOR) = dec_digits (nat (k div 10000))"
    using dr(1) by (simp add: put_int64_def int64_div_def SCALE_FACTOR_def assms(3) d sd)
  show "put_int64 (int64_mod a SCALE_FACTOR) = dec_digits (nat (k mod 10000))"
    using mr(1) by (simp add: put_int64_def int64_mod_def SCALE_FACTOR_def assms(3) m sm)
qed

lemma Price_to_string_format:
  assumes "v \<noteq> Price_INVALID" "v \<noteq> Price_MAX_VALUE"
  shows "Price_to_string v = spec_fixed_format (sint v)"
proof -
  from assms(1) have nl: "v \<noteq> INT64_LOWEST" "v \<noteq> Price_MIN_VALUE"
    by (simp_all add: Price_INVALID_def Price_MIN_VALUE_def INT64_MIN_def INT64_LOWEST_def)
  let ?a = "if sint v < 0 then - v else v"
  have a: "sint ?a = \<bar>sint v\<bar>" using nl(1) by (rule sint_abs64)
  have lo: "- (2 ^ 63) < sint v" using nl(1) by (rule sint_not_lowest)
  have hi: "sint v < 2 ^ 63" using sint_lt[of v] by simp
  have r: "0 \<le> \<bar>sint v\<bar>" "\<bar>sint v\<bar> < 2 ^ 63" using lo hi by simp_all
  note p = put_int64_div[OF r a]
  show ?thesis
    using assms nl(2) p
    by (simp add: Price_to_string_def spec_fixed_format_def put_setw_def Let_def)
qed

lemma Quantity_to_string_format:
  assumes "v \<noteq> Quantity_INVALID" "v \<noteq> Quantity_MAX_VALUE"
  shows "Quantity_to_string v = spec_fixed_format (sint v)"
proof -
  from assms(1) have nl: "v \<noteq> INT64_LOWEST" "v \<noteq> Quantity_MIN_VALUE"
    by (simp_all add: Quantity_INVALID_def Quantity_MIN_VALUE_def INT64_MIN_def INT64_LOWEST_def)
  let ?a = "if sint v < 0 then - v else v"
  have a: "sint ?a = \<bar>sint v\<bar>" using nl(1) by (rule sint_abs64)
  have lo: "- (2 ^ 63) < sint v" using nl(1) by (rule sint_not_lowest)
  have hi: "sint v < 2 ^ 63" using sint_lt[of v] by simp
  have r: "0 \<le> \<bar>sint v\<bar>" "\<bar>sint v\<bar> < 2 ^ 63" using lo hi by simp_all
  note p = put_int64_div[OF r a]
  show ?thesis
    using assms nl(2) p
    by (simp add: Quantity_to_string_def spec_fixed_format_def put_setw_def Let_def)
qed

lemma dec_digits_length:
  "n < 10000 \<Longrightarrow> length (dec_digits n) \<le> 4"
proof -
  assume n: "n < 10000"
  have 1: "length (dec_digits k) = 1" if "k < 10" for k
    using that by (subst dec_digits.simps) simp
  have 2: "length (dec_digits k) \<le> 2" if "k < 100" for k
    using that 1[of "k div 10"] by (subst dec_digits.simps) auto
  have 3: "length (dec_digits k) \<le> 3" if "k < 1000" for k
    using that 2[of "k div 10"] by (subst dec_digits.simps) auto
  show ?thesis using n 3[of "n div 10"] by (subst dec_digits.simps) auto
qed

lemma spec_fixed_format_fraction:
  "length (replicate (4 - length (dec_digits (nat (\<bar>v\<bar> mod 10000)))) CHR ''0''
           @ dec_digits (nat (\<bar>v\<bar> mod 10000))) = 4"
proof -
  have "nat (\<bar>v\<bar> mod 10000) < 10000" by simp
  from dec_digits_length[OF this] show ?thesis by simp
qed

text \<open>The tags of \<^verbatim>\<open>INVALID\<close> and \<^verbatim>\<open>MAX_VALUE\<close>.\<close>

lemma to_string_INVALID_MAX:
  "Price_to_string Price_INVALID = ''INVALID''"
  "Price_to_string Price_MAX_VALUE = ''MAX''"
  "Quantity_to_string Quantity_INVALID = ''INVALID''"
  "Quantity_to_string Quantity_MAX_VALUE = ''MAX''"
  by (simp_all add: Price_to_string_def Quantity_to_string_def Price_INVALID_def
      Price_MAX_VALUE_def Quantity_INVALID_def Quantity_MAX_VALUE_def INT64_LOWEST_def
      INT64_MAX_def)

text \<open>
  C9, evaluation at the failing input.  \<^verbatim>\<open>Price::MIN_VALUE\<close> and
  \<^verbatim>\<open>Quantity::MIN_VALUE\<close> are the same raw value as \<^verbatim>\<open>INVALID\<close>, so the test for
  \<^verbatim>\<open>INVALID\<close> answers first: \<^verbatim>\<open>MIN_VALUE.to_string()\<close> is the tag \<^verbatim>\<open>INVALID\<close>, and
  the branch that returns \<^verbatim>\<open>MIN\<close> is never taken.
\<close>

theorem to_string_MIN_VALUE_is_INVALID:
  "Price_to_string Price_MIN_VALUE = ''INVALID''
   \<and> Quantity_to_string Quantity_MIN_VALUE = ''INVALID''
   \<and> Price_to_string Price_MIN_VALUE \<noteq> ''MIN''
   \<and> Quantity_to_string Quantity_MIN_VALUE \<noteq> ''MIN''"
  by (simp add: Price_to_string_def Quantity_to_string_def Price_MIN_VALUE_def
      Price_INVALID_def Quantity_MIN_VALUE_def Quantity_INVALID_def INT64_MIN_def
      INT64_LOWEST_def)


section \<open>Properties of orders\<close>

text \<open>
  C10.  \<^verbatim>\<open>Order::execute\<close> clamps its argument: the executed quantity grows by exactly
  the minimum of the argument and the remaining quantity.  Hence an order whose remaining
  quantity was not negative keeps its executed quantity at most its quantity and its
  remaining quantity non-negative.  The status becomes \<open>FILLED\<close> when the executed
  quantity reaches the quantity, otherwise \<open>PARTIALLY_FILLED\<close> when the executed
  quantity is positive, and is otherwise left as it was.
\<close>

theorem execute_clamps:
  "executed_quantity (execute ord exec_qty)
     = executed_quantity ord + min exec_qty (remaining_quantity ord)
   \<and> quantity (execute ord exec_qty) = quantity ord
   \<and> (0 \<le> remaining_quantity ord \<longrightarrow>
        executed_quantity (execute ord exec_qty) \<le> quantity ord
        \<and> 0 \<le> remaining_quantity (execute ord exec_qty))
   \<and> status (execute ord exec_qty)
       = (if executed_quantity (execute ord exec_qty) = quantity ord then FILLED
          else if 0 < executed_quantity (execute ord exec_qty) then PARTIALLY_FILLED
          else status ord)"
  by (auto simp: execute_def remaining_quantity_def Let_def min_def)

theorem execute_clamps_witness:
  "0 \<le> remaining_quantity (new_Order 1 ''AAPL'' BUY LIMIT 100000 1000000 GTC)
   \<and> executed_quantity (execute (new_Order 1 ''AAPL'' BUY LIMIT 100000 1000000 GTC) 250000)
       = 100000
   \<and> remaining_quantity (execute (new_Order 1 ''AAPL'' BUY LIMIT 100000 1000000 GTC) 250000)
       = 0
   \<and> status (execute (new_Order 1 ''AAPL'' BUY LIMIT 100000 1000000 GTC) 250000) = FILLED
   \<and> status (execute (new_Order 1 ''AAPL'' BUY LIMIT 100000 1000000 GTC) 40000)
       = PARTIALLY_FILLED"
  using execute_clamps [of "new_Order 1 ''AAPL'' BUY LIMIT 100000 1000000 GTC" 250000]
    execute_clamps [of "new_Order 1 ''AAPL'' BUY LIMIT 100000 1000000 GTC" 40000]
  by (simp add: new_Order_def remaining_quantity_def)


section \<open>The engine on concrete books\<close>

text \<open>
  C1, evaluation at the failing input (scenario 4 of the specification, the book of the
  test \<^verbatim>\<open>FOKOrders\<close>).  A buy of 10 at 100.0 and a sell of 8 at 102.0 rest; a FOK limit
  buy of 10 at 103.0 cannot be filled.  The call returns no match and the taker is
  \<open>CANCELLED\<close>, but the resting sell has been executed in full and its level and the ask
  total are gone, and the killed taker, with 8 executed, rests on the bid side with its
  remainder of 2.
\<close>

theorem fok_unfillable_changes_book:
  "(case run [Submit 1001 ''AAPL'' BUY LIMIT 100000 1000000 GTC,
              Submit 2001 ''AAPL'' SELL LIMIT 80000 1020000 GTC] (new_engine ''AAPL'') of
      None \<Rightarrow> False
    | Some s \<Rightarrow>
        (case submit 1005 ''AAPL'' BUY LIMIT 100000 1030000 FOK s of
           None \<Rightarrow> False
         | Some (matches, s') \<Rightarrow>
             matches = [] \<and> status (heap s' 2) = CANCELLED
             \<and> get_order 2001 s = Some 1 \<and> status (heap s 1) = ACCEPTED
             \<and> remaining_quantity (heap s 1) = 80000
             \<and> status (heap s' 1) = FILLED \<and> remaining_quantity (heap s' 1) = 0
             \<and> best_ask s = Some 1020000 \<and> best_ask s' = None
             \<and> total_ask_quantity (book s) = 80000 \<and> total_ask_quantity (book s') = 0
             \<and> executed_quantity (heap s' 2) = 80000
             \<and> get_order 1005 s = None \<and> get_order 1005 s' = Some 2
             \<and> get_orders_at_level 1030000 BUY s' = [2]
             \<and> total_bid_quantity (book s) = 100000
             \<and> total_bid_quantity (book s') = 120000))"
  by code_simp


text \<open>
  C3, evaluation at the failing input.  A sell of 8 at 102.0 has 5 executed and rests
  with status \<open>PARTIALLY_FILLED\<close>.  Modifying its quantity to 3, below the executed
  quantity, returns no match and leaves the quantities, the queue and the totals as they
  were: the level refuses the change.  The book ignores the refusal and marks the order
  \<open>REPLACED\<close>.
\<close>

theorem modify_below_executed_replaces_status:
  "(case run [Submit 2001 ''AAPL'' SELL LIMIT 80000 1020000 GTC,
              Submit 1004 ''AAPL'' BUY LIMIT 50000 1030000 GTC] (new_engine ''AAPL'') of
      None \<Rightarrow> False
    | Some s \<Rightarrow>
        (case modify_order 2001 None (Some 30000) s of
           None \<Rightarrow> False
         | Some (matches, s') \<Rightarrow>
             get_order 2001 s = Some 0 \<and> executed_quantity (heap s 0) = 50000
             \<and> matches = []
             \<and> quantity (heap s' 0) = quantity (heap s 0)
             \<and> executed_quantity (heap s' 0) = executed_quantity (heap s 0)
             \<and> get_orders_at_level 1020000 SELL s' = get_orders_at_level 1020000 SELL s
             \<and> get_quantity_at_level 1020000 SELL s' = get_quantity_at_level 1020000 SELL s
             \<and> total_ask_quantity (book s') = total_ask_quantity (book s)
             \<and> status (heap s 0) = PARTIALLY_FILLED
             \<and> status (heap s' 0) = REPLACED))"
  by code_simp

text \<open>
  C4, evaluation at the failing input.  Sells of 8 at 102.0 and of 6 at 103.0 rest.  A
  FOK limit buy of 20 at 103.0 consumes the first level, leaves the loop because it is
  FOK and partly filled, is killed, and is then put on the book by \<^verbatim>\<open>add_order\<close>
  because its time in force is not IOC.  All three submissions are valid; afterwards the
  best bid is 103.0 and the best ask is 103.0: the book is crossed.
\<close>

theorem fok_killed_order_crosses_book:
  "valid_run [Submit 2001 ''AAPL'' SELL LIMIT 80000 1020000 GTC,
              Submit 2002 ''AAPL'' SELL LIMIT 60000 1030000 GTC,
              Submit 1005 ''AAPL'' BUY LIMIT 200000 1030000 FOK] (new_engine ''AAPL'')
   \<and> (case run [Submit 2001 ''AAPL'' SELL LIMIT 80000 1020000 GTC,
                 Submit 2002 ''AAPL'' SELL LIMIT 60000 1030000 GTC,
                 Submit 1005 ''AAPL'' BUY LIMIT 200000 1030000 FOK] (new_engine ''AAPL'') of
         None \<Rightarrow> False
       | Some s \<Rightarrow>
           best_bid s = Some 1030000 \<and> best_ask s = Some 1030000
           \<and> \<not> the (best_bid s) < the (best_ask s)
           \<and> status (heap s 2) = CANCELLED \<and> get_order 1005 s = Some 2)"
  by code_simp

text \<open>
  C5, counterexample.  After three valid operations the sell 2001 is in the id index and
  in its price level, with status \<open>REPLACED\<close>, which is not an active status, and with
  nothing remaining: 5 of its 8 were executed and its quantity was then modified to 5.
\<close>

theorem resting_order_inactive_counterexample:
  "valid_run [Submit 2001 ''AAPL'' SELL LIMIT 80000 1020000 GTC,
              Submit 1004 ''AAPL'' BUY LIMIT 50000 1030000 GTC,
              Modify 2001 None (Some 50000)] (new_engine ''AAPL'')
   \<and> (case run [Submit 2001 ''AAPL'' SELL LIMIT 80000 1020000 GTC,
                 Submit 1004 ''AAPL'' BUY LIMIT 50000 1030000 GTC,
                 Modify 2001 None (Some 50000)] (new_engine ''AAPL'') of
         None \<Rightarrow> False
       | Some s \<Rightarrow>
           get_order 2001 s = Some 0 \<and> get_orders_at_level 1020000 SELL s = [0]
           \<and> status (heap s 0) = REPLACED \<and> \<not> is_active (heap s 0)
           \<and> remaining_quantity (heap s 0) = 0)"
  by code_simp

text \<open>
  C7, counterexample.  A limit buy with price zero on an empty book matches nothing and
  is added to the book: \<^verbatim>\<open>add_order\<close> tests the id only.
\<close>

theorem submit_zero_price_counterexample:
  "(case submit 1 ''AAPL'' BUY LIMIT 50000 0 GTC (new_engine ''AAPL'') of
      None \<Rightarrow> False
    | Some (matches, s') \<Rightarrow>
        matches = [] \<and> get_order 1 s' = Some 0 \<and> get_orders_at_level 0 BUY s' = [0]
        \<and> best_bid s' = Some 0 \<and> status (heap s' 0) = ACCEPTED)"
  by code_simp


section \<open>The book after valid operations\<close>

text \<open>
  C6.  After every sequence of valid submit, cancel and modify operations on a new book,
  the operations have all returned and, in the book they leave, the cached total of each
  bid level and of each ask level is the sum of the remaining quantities of the orders
  the level holds, and the total of each side is the sum of the totals of its levels.
\<close>

theorem totals_consistent:
  assumes "valid_run xs (new_engine smb)"
  shows "case run xs (new_engine smb) of
           None \<Rightarrow> False
         | Some s \<Rightarrow>
             (\<forall>e\<in>set (bid_levels (book s)).
                 total_quantity (snd e)
                   = (\<Sum>a\<leftarrow>level_orders (snd e). remaining_quantity (heap s a)))
             \<and> (\<forall>e\<in>set (ask_levels (book s)).
                 total_quantity (snd e)
                   = (\<Sum>a\<leftarrow>level_orders (snd e). remaining_quantity (heap s a)))
             \<and> total_bid_quantity (book s)
                 = (\<Sum>e\<leftarrow>bid_levels (book s). total_quantity (snd e))
             \<and> total_ask_quantity (book s)
                 = (\<Sum>e\<leftarrow>ask_levels (book s). total_quantity (snd e))"
proof -
  from assms obtain s where r: "run xs (new_engine smb) = Some s" and inv: "book_inv s"
    by (rule run_valid_cases)
  from totals_of_inv[OF inv, of BUY] totals_of_inv[OF inv, of SELL] r
  show ?thesis by (simp add: levels_of_def total_of_def)
qed

theorem totals_consistent_witness:
  "valid_run [Submit 2001 ''AAPL'' SELL LIMIT 80000 1020000 GTC,
              Submit 2002 ''AAPL'' SELL LIMIT 60000 1020000 GTC,
              Submit 1001 ''AAPL'' BUY LIMIT 100000 1000000 GTC,
              Submit 1004 ''AAPL'' BUY LIMIT 50000 1030000 GTC,
              Modify 2002 None (Some 40000),
              Cancel 1001] (new_engine ''AAPL'')
   \<and> (case run [Submit 2001 ''AAPL'' SELL LIMIT 80000 1020000 GTC,
                 Submit 2002 ''AAPL'' SELL LIMIT 60000 1020000 GTC,
                 Submit 1001 ''AAPL'' BUY LIMIT 100000 1000000 GTC,
                 Submit 1004 ''AAPL'' BUY LIMIT 50000 1030000 GTC,
                 Modify 2002 None (Some 40000),
                 Cancel 1001] (new_engine ''AAPL'') of
         None \<Rightarrow> False
       | Some s \<Rightarrow>
           (\<forall>e\<in>set (bid_levels (book s)).
               total_quantity (snd e)
                 = (\<Sum>a\<leftarrow>level_orders (snd e). remaining_quantity (heap s a)))
           \<and> (\<forall>e\<in>set (ask_levels (book s)).
               total_quantity (snd e)
                 = (\<Sum>a\<leftarrow>level_orders (snd e). remaining_quantity (heap s a)))
           \<and> total_bid_quantity (book s)
               = (\<Sum>e\<leftarrow>bid_levels (book s). total_quantity (snd e))
           \<and> total_ask_quantity (book s)
               = (\<Sum>e\<leftarrow>ask_levels (book s). total_quantity (snd e)))"
proof -
  have v: "valid_run [Submit 2001 ''AAPL'' SELL LIMIT 80000 1020000 GTC,
              Submit 2002 ''AAPL'' SELL LIMIT 60000 1020000 GTC,
              Submit 1001 ''AAPL'' BUY LIMIT 100000 1000000 GTC,
              Submit 1004 ''AAPL'' BUY LIMIT 50000 1030000 GTC,
              Modify 2002 None (Some 40000),
              Cancel 1001] (new_engine ''AAPL'')"
    by code_simp
  from v totals_consistent[OF v] show ?thesis by (rule conjI)
qed

text \<open>
  C5, as it holds.  After every sequence of valid submit, cancel and modify operations
  on a new book, every order held by a price level is in the id index and in the level of
  its side and price, and its remaining quantity is not negative and is positive unless
  its status is \<open>REPLACED\<close>; if its time in force is not FOK its status is \<open>ACCEPTED\<close>,
  \<open>PARTIALLY_FILLED\<close> or \<open>REPLACED\<close>.  (\<open>REPLACED\<close> is the status that a modification
  in place gives to the resting order; \<^verbatim>\<open>is_active\<close> does not count it.)
\<close>

theorem resting_orders_status_and_remaining:
  assumes "valid_run xs (new_engine smb)"
  shows "case run xs (new_engine smb) of
           None \<Rightarrow> False
         | Some s \<Rightarrow>
             (\<forall>a\<in>set (all_addrs s).
                 get_order (order_id (heap s a)) s = Some a
                 \<and> a \<in> set (get_orders_at_level (price (heap s a)) (side (heap s a)) s)
                 \<and> 0 \<le> remaining_quantity (heap s a)
                 \<and> (status (heap s a) \<noteq> REPLACED \<longrightarrow> 0 < remaining_quantity (heap s a))
                 \<and> (time_in_force (heap s a) \<noteq> FOK \<longrightarrow>
                      status (heap s a) = ACCEPTED \<or> status (heap s a) = PARTIALLY_FILLED
                      \<or> status (heap s a) = REPLACED))"
proof -
  from assms obtain s where r: "run xs (new_engine smb) = Some s" and inv: "book_inv s"
    by (rule run_valid_cases)
  have "get_order (order_id (heap s a)) s = Some a
        \<and> a \<in> set (get_orders_at_level (price (heap s a)) (side (heap s a)) s)
        \<and> 0 \<le> remaining_quantity (heap s a)
        \<and> (status (heap s a) \<noteq> REPLACED \<longrightarrow> 0 < remaining_quantity (heap s a))
        \<and> (time_in_force (heap s a) \<noteq> FOK \<longrightarrow>
             status (heap s a) = ACCEPTED \<or> status (heap s a) = PARTIALLY_FILLED
             \<or> status (heap s a) = REPLACED)"
    if a: "a \<in> set (all_addrs s)" for a
  proof -
    note ro = resting_of_inv[OF inv a]
    have "status (heap s a) = ACCEPTED \<or> status (heap s a) = PARTIALLY_FILLED
          \<or> status (heap s a) = REPLACED"
      if "time_in_force (heap s a) \<noteq> FOK"
      using ro(1) that by (cases "status (heap s a)") (auto simp: resting_ok_def)
    moreover have "0 \<le> remaining_quantity (heap s a)"
      using ro(1) by (simp add: resting_ok_def remaining_quantity_def)
    moreover have "0 < remaining_quantity (heap s a)" if "status (heap s a) \<noteq> REPLACED"
      using ro(1) that by (auto simp: resting_ok_def remaining_quantity_def)
    ultimately show ?thesis using ro(2,3) by blast
  qed
  with r show ?thesis by simp
qed

theorem resting_orders_status_and_remaining_witness:
  "valid_run [Submit 2001 ''AAPL'' SELL LIMIT 80000 1020000 GTC,
              Submit 2002 ''AAPL'' SELL LIMIT 60000 1030000 GTC,
              Submit 1004 ''AAPL'' BUY LIMIT 50000 1030000 GTC,
              Modify 2001 None (Some 50000),
              Submit 1001 ''AAPL'' BUY LIMIT 100000 1000000 GTC] (new_engine ''AAPL'')
   \<and> (case run [Submit 2001 ''AAPL'' SELL LIMIT 80000 1020000 GTC,
                 Submit 2002 ''AAPL'' SELL LIMIT 60000 1030000 GTC,
                 Submit 1004 ''AAPL'' BUY LIMIT 50000 1030000 GTC,
                 Modify 2001 None (Some 50000),
                 Submit 1001 ''AAPL'' BUY LIMIT 100000 1000000 GTC] (new_engine ''AAPL'') of
         None \<Rightarrow> False
       | Some s \<Rightarrow>
           (\<forall>a\<in>set (all_addrs s).
               get_order (order_id (heap s a)) s = Some a
               \<and> a \<in> set (get_orders_at_level (price (heap s a)) (side (heap s a)) s)
               \<and> 0 \<le> remaining_quantity (heap s a)
               \<and> (status (heap s a) \<noteq> REPLACED \<longrightarrow> 0 < remaining_quantity (heap s a))
               \<and> (time_in_force (heap s a) \<noteq> FOK \<longrightarrow>
                    status (heap s a) = ACCEPTED \<or> status (heap s a) = PARTIALLY_FILLED
                    \<or> status (heap s a) = REPLACED)))"
proof -
  have v: "valid_run [Submit 2001 ''AAPL'' SELL LIMIT 80000 1020000 GTC,
              Submit 2002 ''AAPL'' SELL LIMIT 60000 1030000 GTC,
              Submit 1004 ''AAPL'' BUY LIMIT 50000 1030000 GTC,
              Modify 2001 None (Some 50000),
              Submit 1001 ''AAPL'' BUY LIMIT 100000 1000000 GTC] (new_engine ''AAPL'')"
    by code_simp
  from v resting_orders_status_and_remaining[OF v] show ?thesis by (rule conjI)
qed



text \<open>
  C7, as it holds.  A submission with the null id, or with quantity zero, returns no
  match and leaves the book as it was, whatever the state: no level, total or index
  entry changes, so the order is not added and \<^verbatim>\<open>get_order\<close> of its id answers as
  before the call.  (A limit order with price zero is not among them: \<^verbatim>\<open>add_order\<close>
  tests the id only.)
\<close>

theorem submit_null_id_or_zero_quantity:
  assumes "i = INVALID_ORDER_ID \<or> q = 0"
  shows "\<exists>s'. submit i smb sd ty q p tif s = Some ([], s')
              \<and> book s' = book s \<and> get_order i s' = get_order i s"
proof -
  let ?n = "next_addr s"
  let ?s0 = "s\<lparr> heap := (heap s)(?n := new_Order i smb sd ty q p tif), next_addr := Suc ?n \<rparr>"
  have sub: "submit i smb sd ty q p tif s = add_order ?n ?s0"
    by (simp add: submit_def make_shared_def)
  have "\<exists>s'. add_order ?n ?s0 = Some ([], s') \<and> book s' = book s"
  proof (cases "i = INVALID_ORDER_ID")
    case True
    then show ?thesis by (simp add: add_order_def is_valid_def new_Order_def)
  next
    case False
    with assms have q: "q = 0" by simp
    show ?thesis
      using False q
      by (cases ty)
         (simp_all add: add_order_def is_valid_def new_Order_def set_status_def
            match_market_order_def match_limit_order_def match_walk.simps
            remaining_quantity_def execute_def is_filled_def Let_def)
  qed
  with sub show ?thesis by (auto simp: get_order_def)
qed

theorem submit_null_id_or_zero_quantity_witness:
  "(\<exists>s'. submit 0 ''AAPL'' BUY LIMIT 50000 1000000 GTC (new_engine ''AAPL'') = Some ([], s')
         \<and> book s' = book (new_engine ''AAPL'')
         \<and> get_order 0 s' = get_order 0 (new_engine ''AAPL''))
   \<and> (\<exists>s'. submit 5 ''AAPL'' SELL LIMIT 0 1000000 GTC (new_engine ''AAPL'') = Some ([], s')
         \<and> book s' = book (new_engine ''AAPL'')
         \<and> get_order 5 s' = get_order 5 (new_engine ''AAPL''))
   \<and> get_order 5 (new_engine ''AAPL'') = None"
  using submit_null_id_or_zero_quantity
          [of 0 50000 "''AAPL''" BUY LIMIT 1000000 GTC "new_engine ''AAPL''"]
        submit_null_id_or_zero_quantity
          [of 5 0 "''AAPL''" SELL LIMIT 1000000 GTC "new_engine ''AAPL''"]
  by (simp add: INVALID_ORDER_ID_def get_order_def new_engine_def new_OrderBook_def)

text \<open>
  Submissions that do not rest.  In a book reached by valid operations, a valid
  submission of a \<open>MARKET\<close> order, or of a \<open>LIMIT\<close> order with time in force IOC,
  returns, and the taker is not added to the book, whatever it has left: its object is in
  no price level and the id index is as it was before the call.  Hence \<^verbatim>\<open>get_order\<close> of
  its id answers as before the call: none for an id that was not in the index.
\<close>

theorem market_and_ioc_takers_do_not_rest:
  assumes "valid_run (xs @ [Submit i smb sd ty q p tif]) (new_engine smb0)"
    and "ty = MARKET \<or> (ty = LIMIT \<and> tif = IOC)"
  shows "case run xs (new_engine smb0) of
           None \<Rightarrow> False
         | Some s \<Rightarrow>
             (case submit i smb sd ty q p tif s of
                None \<Rightarrow> False
              | Some (matches, s') \<Rightarrow>
                  next_addr s \<notin> set (all_addrs s')
                  \<and> (\<forall>j. get_order j s' = get_order j s)
                  \<and> (get_order i s = None \<longrightarrow> get_order i s' = None))"
proof -
  from assms(1) have "valid_run xs (new_engine smb0)" by (rule valid_run_butlast)
  then obtain s where r: "run xs (new_engine smb0) = Some s" and inv: "book_inv s"
    by (rule run_valid_cases)
  from valid_run_last[OF assms(1) r] have nr: "\<not> is_resting i s" by simp
  from submit_inv[OF inv nr, of smb sd ty q p tif] assms(2)
  obtain ms s1 where s1: "submit i smb sd ty q p tif s = Some (ms, s1)"
    and o: "orders (book s1) = orders (book s)"
    and sub: "set (all_addrs s1) \<subseteq> set (all_addrs s)"
    by auto
  have "a < next_addr s" if "a \<in> set (all_addrs s)" for a
    using member_lt_next[OF inv that] .
  with sub have "next_addr s \<notin> set (all_addrs s1)" by auto
  with r s1 o show ?thesis by (simp add: get_order_def)
qed

theorem market_and_ioc_takers_do_not_rest_witness:
  "valid_run ([Submit 2001 ''AAPL'' SELL LIMIT 80000 1020000 GTC]
              @ [Submit 1005 ''AAPL'' BUY LIMIT 100000 1030000 IOC]) (new_engine ''AAPL'')
   \<and> valid_run ([Submit 2001 ''AAPL'' SELL LIMIT 80000 1020000 GTC]
              @ [Submit 1006 ''AAPL'' BUY MARKET 100000 0 GTC]) (new_engine ''AAPL'')
   \<and> (case run [Submit 2001 ''AAPL'' SELL LIMIT 80000 1020000 GTC] (new_engine ''AAPL'') of
         None \<Rightarrow> False
       | Some s \<Rightarrow>
           get_order 1005 s = None \<and> get_order 1006 s = None
           \<and> (case submit 1005 ''AAPL'' BUY LIMIT 100000 1030000 IOC s of
                None \<Rightarrow> False
              | Some (matches, s') \<Rightarrow>
                  get_order 1005 s' = None \<and> next_addr s \<notin> set (all_addrs s'))
           \<and> (case submit 1006 ''AAPL'' BUY MARKET 100000 0 GTC s of
                None \<Rightarrow> False
              | Some (matches, s') \<Rightarrow>
                  get_order 1006 s' = None \<and> next_addr s \<notin> set (all_addrs s')))"
proof -
  let ?xs = "[Submit 2001 ''AAPL'' SELL LIMIT 80000 1020000 GTC]"
  have v1: "valid_run (?xs @ [Submit 1005 ''AAPL'' BUY LIMIT 100000 1030000 IOC])
              (new_engine ''AAPL'')"
    and v2: "valid_run (?xs @ [Submit 1006 ''AAPL'' BUY MARKET 100000 0 GTC])
              (new_engine ''AAPL'')"
    by code_simp+
  have e: "get_order 1005 (the (run ?xs (new_engine ''AAPL''))) = None"
    "get_order 1006 (the (run ?xs (new_engine ''AAPL''))) = None"
    by code_simp+
  from market_and_ioc_takers_do_not_rest[OF v1] market_and_ioc_takers_do_not_rest[OF v2]
    v1 v2 e
  show ?thesis by (auto split: option.splits)
qed

text \<open>
  C8, evaluation at the failing input.  The matching loops take a filled maker out of
  its price level, but nothing erases it from the id index \<^verbatim>\<open>orders_\<close>: only
  \<^verbatim>\<open>cancel_order\<close> erases an entry.  A sell 2001 of 8 at 102.0 rests and is filled by a
  buy 1004 of 8 at 103.0; no order rests any more, and the index still holds 2001.  The
  id 2001 is not resting, so a submission that carries it is valid.  A limit buy 2001 of
  5 at 103.0 with time in force IOC, and likewise a market buy 2001 of 5, matches nothing
  and is not added to the book: its object, at address 2, is in no level and not in the
  index.  But \<^verbatim>\<open>get_order\<close> of its id does not return none afterwards: it returns the
  filled sell at address 0.
\<close>

theorem ioc_taker_with_id_of_filled_order_is_found:
  "valid_run [Submit 2001 ''AAPL'' SELL LIMIT 80000 1020000 GTC,
              Submit 1004 ''AAPL'' BUY LIMIT 80000 1030000 GTC,
              Submit 2001 ''AAPL'' BUY LIMIT 50000 1030000 IOC] (new_engine ''AAPL'')
   \<and> valid_run [Submit 2001 ''AAPL'' SELL LIMIT 80000 1020000 GTC,
                 Submit 1004 ''AAPL'' BUY LIMIT 80000 1030000 GTC,
                 Submit 2001 ''AAPL'' BUY MARKET 50000 0 GTC] (new_engine ''AAPL'')
   \<and> (case run [Submit 2001 ''AAPL'' SELL LIMIT 80000 1020000 GTC,
                 Submit 1004 ''AAPL'' BUY LIMIT 80000 1030000 GTC] (new_engine ''AAPL'') of
         None \<Rightarrow> False
       | Some s \<Rightarrow>
           all_addrs s = [] \<and> \<not> is_resting 2001 s \<and> next_addr s = 2
           \<and> get_order 2001 s = Some 0 \<and> get_order 1004 s = None
           \<and> status (heap s 0) = FILLED \<and> side (heap s 0) = SELL
           \<and> (case submit 2001 ''AAPL'' BUY LIMIT 50000 1030000 IOC s of
                None \<Rightarrow> False
              | Some (matches, s') \<Rightarrow>
                  matches = [] \<and> all_addrs s' = []
                  \<and> order_id (heap s' 2) = 2001 \<and> side (heap s' 2) = BUY
                  \<and> time_in_force (heap s' 2) = IOC
                  \<and> remaining_quantity (heap s' 2) = 50000
                  \<and> get_order 2001 s' = Some 0 \<and> get_order 2001 s' \<noteq> None
                  \<and> status (heap s' 0) = FILLED \<and> side (heap s' 0) = SELL)
           \<and> (case submit 2001 ''AAPL'' BUY MARKET 50000 0 GTC s of
                None \<Rightarrow> False
              | Some (matches, s') \<Rightarrow>
                  matches = [] \<and> all_addrs s' = []
                  \<and> order_id (heap s' 2) = 2001 \<and> order_type (heap s' 2) = MARKET
                  \<and> remaining_quantity (heap s' 2) = 50000
                  \<and> get_order 2001 s' = Some 0 \<and> get_order 2001 s' \<noteq> None
                  \<and> status (heap s' 0) = FILLED \<and> side (heap s' 0) = SELL))"
  by code_simp

end
